theory Spec2Isabelle
  imports Main "HOL-Library.Word" "HOL-Library.Multiset"
begin

unbundle bit_operations_syntax

section \<open>Paths, errors and the file system\<close>

text \<open>
  A path is the list of its components; the empty list is the directory the tree is
  rooted at (the path \<^verbatim>\<open>.\<close>). \<^verbatim>\<open>filepath.Join(path, name)\<close> adds a
  component, \<^verbatim>\<open>filepath.Base\<close> is the last one.
\<close>

type_synonym path = "string list"
type_synonym byte = "8 word"

definition Join :: "path \<Rightarrow> string \<Rightarrow> path" where
  "Join p name = p @ [name]"

definition Base :: "path \<Rightarrow> string" where
  "Base p = (if p = [] then ''.'' else last p)"

text \<open>
  Go errors as values. \<open>SkipDir\<close> is the sentinel \<^verbatim>\<open>filepath.SkipDir\<close>,
  \<open>Errorf\<close> is \<^verbatim>\<open>fmt.Errorf("...: %w", err)\<close>, \<open>Panic\<close> stands for a run-time
  panic (nil dereference, failed type assertion).
\<close>

datatype error =
    ENOENT | EACCES | EISDIR | ENOTDIR | ENOTEMPTY | EINVAL | EIO
  | SkipDir
  | Errorf string error
  | Panic string

text \<open>
  The file system is a tree. A regular file carries what reading it yields and whether
  unlinking it is permitted; a directory carries whether it can be listed and its entries
  in the order \<^verbatim>\<open>filepath.Walk\<close> reads them (sorted by name); \<open>Unstatable\<close> is an
  entry on which \<^verbatim>\<open>lstat\<close> fails.
\<close>

datatype filedata = Content "byte list" | OpenFails | ReadFails

datatype fsnode =
    File filedata bool
  | Dir bool "(string \<times> fsnode) list"
  | Unstatable

record FileInfo =
  Name :: string
  IsDir :: bool

fun isDirNode :: "fsnode \<Rightarrow> bool" where
  "isDirNode (Dir l es) = True"
| "isDirNode _ = False"

fun lookup :: "fsnode \<Rightarrow> path \<Rightarrow> fsnode option"
  and lookupIn :: "(string \<times> fsnode) list \<Rightarrow> string \<Rightarrow> path \<Rightarrow> fsnode option" where
  "lookup node [] = Some node"
| "lookup (Dir l es) (c # cs) = lookupIn es c cs"
| "lookup (File d r) (c # cs) = None"
| "lookup Unstatable (c # cs) = None"
| "lookupIn [] c cs = None"
| "lookupIn ((n, node) # es) c cs = (if n = c then lookup node cs else lookupIn es c cs)"

definition os_Lstat :: "fsnode \<Rightarrow> path \<Rightarrow> error + FileInfo" where
  "os_Lstat fs p =
     (case lookup fs p of
        None \<Rightarrow> Inl ENOENT
      | Some Unstatable \<Rightarrow> Inl EACCES
      | Some node \<Rightarrow> Inr \<lparr>Name = Base p, IsDir = isDirNode node\<rparr>)"

text \<open>\<^verbatim>\<open>os.Open\<close>: the handle is the node the path resolves to.\<close>

definition os_Open :: "fsnode \<Rightarrow> path \<Rightarrow> error + fsnode" where
  "os_Open fs filename =
     (case lookup fs filename of
        None \<Rightarrow> Inl ENOENT
      | Some Unstatable \<Rightarrow> Inl EACCES
      | Some (File OpenFails r) \<Rightarrow> Inl EACCES
      | Some node \<Rightarrow> Inr node)"

text \<open>\<^verbatim>\<open>io.Copy(hash, file)\<close>: every byte of the file, or the read error.\<close>

fun io_Copy :: "fsnode \<Rightarrow> error + byte list" where
  "io_Copy (File (Content bytes) r) = Inr bytes"
| "io_Copy (File OpenFails r) = Inl EACCES"
| "io_Copy (File ReadFails r) = Inl EIO"
| "io_Copy (Dir l es) = Inl EISDIR"
| "io_Copy Unstatable = Inl EACCES"

text \<open>
  \<^verbatim>\<open>os.Remove\<close>: unlinks a file, removes an empty directory, fails otherwise and
  then leaves the tree as it is.
\<close>

fun remove :: "fsnode \<Rightarrow> path \<Rightarrow> error + fsnode"
  and removeIn :: "(string \<times> fsnode) list \<Rightarrow> string \<Rightarrow> path \<Rightarrow> error + (string \<times> fsnode) list" where
  "remove node [] = Inl EINVAL"
| "remove (Dir l es) (c # cs) =
     (case removeIn es c cs of Inl e \<Rightarrow> Inl e | Inr es' \<Rightarrow> Inr (Dir l es'))"
| "remove (File d r) (c # cs) = Inl ENOTDIR"
| "remove Unstatable (c # cs) = Inl EACCES"
| "removeIn [] c cs = Inl ENOENT"
| "removeIn ((n, node) # es) c cs =
     (if n = c then
        (if cs = [] then
           (case node of
              File d r \<Rightarrow> if r then Inr es else Inl EACCES
            | Dir l sub \<Rightarrow> if sub = [] then Inr es else Inl ENOTEMPTY
            | Unstatable \<Rightarrow> Inl EACCES)
         else (case remove node cs of Inl e \<Rightarrow> Inl e | Inr node' \<Rightarrow> Inr ((n, node') # es)))
      else (case removeIn es c cs of Inl e \<Rightarrow> Inl e | Inr es' \<Rightarrow> Inr ((n, node) # es')))"

definition os_Remove :: "fsnode \<Rightarrow> path \<Rightarrow> error + fsnode" where
  "os_Remove fs name = remove fs name"

section \<open>\<^verbatim>\<open>filepath.Walk\<close>\<close>

text \<open>
  The walk function receives the path, the file info (nil when \<^verbatim>\<open>lstat\<close> failed) and
  the error met on the way, and threads the caller's state. \<open>walk\<close> visits a node that
  \<^verbatim>\<open>lstat\<close> could read; \<open>walkNames\<close> is the loop over a directory's names.
\<close>

type_synonym 's WalkFunc = "path \<Rightarrow> FileInfo option \<Rightarrow> error option \<Rightarrow> 's \<Rightarrow> error option \<times> 's"

fun walk :: "'s WalkFunc \<Rightarrow> path \<Rightarrow> string \<Rightarrow> fsnode \<Rightarrow> 's \<Rightarrow> error option \<times> 's"
  and walkNames :: "'s WalkFunc \<Rightarrow> path \<Rightarrow> (string \<times> fsnode) list \<Rightarrow> 's \<Rightarrow> error option \<times> 's" where
  "walk walkFn path name (File d r) s = walkFn path (Some \<lparr>Name = name, IsDir = False\<rparr>) None s"
| "walk walkFn path name Unstatable s = walkFn path None (Some EACCES) s"
| "walk walkFn path name (Dir listable es) s =
     (let err = (if listable then None else Some EACCES) in
      case walkFn path (Some \<lparr>Name = name, IsDir = True\<rparr>) err s of
        (err1, s1) \<Rightarrow>
          if err \<noteq> None \<or> err1 \<noteq> None then (err1, s1) else walkNames walkFn path es s1)"
| "walkNames walkFn path [] s = (None, s)"
| "walkNames walkFn path ((name, node) # rest) s =
     (let filename = Join path name in
      case node of
        Unstatable \<Rightarrow>
          (case walkFn filename None (Some EACCES) s of
             (None, s1) \<Rightarrow> walkNames walkFn path rest s1
           | (Some e, s1) \<Rightarrow>
               if e \<noteq> SkipDir then (Some e, s1) else walkNames walkFn path rest s1)
      | _ \<Rightarrow>
          (case walk walkFn filename name node s of
             (None, s1) \<Rightarrow> walkNames walkFn path rest s1
           | (Some e, s1) \<Rightarrow>
               if \<not> isDirNode node \<or> e \<noteq> SkipDir then (Some e, s1)
               else walkNames walkFn path rest s1))"

definition Walk :: "fsnode \<Rightarrow> path \<Rightarrow> 's WalkFunc \<Rightarrow> 's \<Rightarrow> error option \<times> 's" where
  "Walk fs root fn s =
     (case (case lookup fs root of
              None \<Rightarrow> fn root None (Some ENOENT) s
            | Some Unstatable \<Rightarrow> fn root None (Some EACCES) s
            | Some node \<Rightarrow> walk fn root (Base root) node s) of
        (err, s1) \<Rightarrow> if err = Some SkipDir then (None, s1) else (err, s1))"

section \<open>SHA-256 and \<^verbatim>\<open>%x\<close>\<close>

text \<open>
  \<^verbatim>\<open>crypto/sha256\<close> is the standard library's; it is written out here after
  FIPS 180-4 so that the identity key of a file can be computed.
\<close>

type_synonym w32 = "32 word"

definition K256 :: "w32 list" where
  "K256 = [
   0x428A2F98, 0x71374491, 0xB5C0FBCF, 0xE9B5DBA5, 0x3956C25B, 0x59F111F1, 0x923F82A4, 0xAB1C5ED5,
   0xD807AA98, 0x12835B01, 0x243185BE, 0x550C7DC3, 0x72BE5D74, 0x80DEB1FE, 0x9BDC06A7, 0xC19BF174,
   0xE49B69C1, 0xEFBE4786, 0x0FC19DC6, 0x240CA1CC, 0x2DE92C6F, 0x4A7484AA, 0x5CB0A9DC, 0x76F988DA,
   0x983E5152, 0xA831C66D, 0xB00327C8, 0xBF597FC7, 0xC6E00BF3, 0xD5A79147, 0x06CA6351, 0x14292967,
   0x27B70A85, 0x2E1B2138, 0x4D2C6DFC, 0x53380D13, 0x650A7354, 0x766A0ABB, 0x81C2C92E, 0x92722C85,
   0xA2BFE8A1, 0xA81A664B, 0xC24B8B70, 0xC76C51A3, 0xD192E819, 0xD6990624, 0xF40E3585, 0x106AA070,
   0x19A4C116, 0x1E376C08, 0x2748774C, 0x34B0BCB5, 0x391C0CB3, 0x4ED8AA4A, 0x5B9CCA4F, 0x682E6FF3,
   0x748F82EE, 0x78A5636F, 0x84C87814, 0x8CC70208, 0x90BEFFFA, 0xA4506CEB, 0xBEF9A3F7, 0xC67178F2]"

definition rotr :: "nat \<Rightarrow> w32 \<Rightarrow> w32" where
  "rotr n x = (drop_bit n x) OR (push_bit (32 - n) x)"

definition Ch :: "w32 \<Rightarrow> w32 \<Rightarrow> w32 \<Rightarrow> w32" where
  "Ch x y z = (x AND y) XOR (NOT x AND z)"

definition Maj :: "w32 \<Rightarrow> w32 \<Rightarrow> w32 \<Rightarrow> w32" where
  "Maj x y z = (x AND y) XOR (x AND z) XOR (y AND z)"

definition bsig0 :: "w32 \<Rightarrow> w32" where
  "bsig0 x = rotr 2 x XOR rotr 13 x XOR rotr 22 x"

definition bsig1 :: "w32 \<Rightarrow> w32" where
  "bsig1 x = rotr 6 x XOR rotr 11 x XOR rotr 25 x"

definition ssig0 :: "w32 \<Rightarrow> w32" where
  "ssig0 x = rotr 7 x XOR rotr 18 x XOR drop_bit 3 x"

definition ssig1 :: "w32 \<Rightarrow> w32" where
  "ssig1 x = rotr 17 x XOR rotr 19 x XOR drop_bit 10 x"

fun be32 :: "byte list \<Rightarrow> w32 list" where
  "be32 (a # b # c # d # rest) =
     (push_bit 24 (ucast a) OR push_bit 16 (ucast b) OR push_bit 8 (ucast c) OR ucast d) # be32 rest"
| "be32 _ = []"

fun schedule :: "nat \<Rightarrow> w32 list \<Rightarrow> w32 list" where
  "schedule 0 w = w"
| "schedule (Suc n) w =
     (let t = length w in
      schedule n (w @ [ssig1 (w ! (t - 2)) + w ! (t - 7) + ssig0 (w ! (t - 15)) + w ! (t - 16)]))"

type_synonym hstate = "w32 \<times> w32 \<times> w32 \<times> w32 \<times> w32 \<times> w32 \<times> w32 \<times> w32"

fun round256 :: "hstate \<Rightarrow> w32 \<times> w32 \<Rightarrow> hstate" where
  "round256 (a, b, c, d, e, f, g, h) (k, w) =
     (let t1 = h + bsig1 e + Ch e f g + k + w;
          t2 = bsig0 a + Maj a b c
      in (t1 + t2, a, b, c, d + t1, e, f, g))"

fun addState :: "hstate \<Rightarrow> hstate \<Rightarrow> hstate" where
  "addState (a, b, c, d, e, f, g, h) (a', b', c', d', e', f', g', h') =
     (a + a', b + b', c + c', d + d', e + e', f + f', g + g', h + h')"

definition block256 :: "hstate \<Rightarrow> byte list \<Rightarrow> hstate" where
  "block256 st blk = addState st (foldl round256 st (zip K256 (schedule 48 (be32 blk))))"

fun blocks :: "nat \<Rightarrow> byte list \<Rightarrow> byte list list" where
  "blocks 0 bs = []"
| "blocks (Suc n) bs = take 64 bs # blocks n (drop 64 bs)"

definition be64 :: "64 word \<Rightarrow> byte list" where
  "be64 n = map (\<lambda>i. ucast (drop_bit (8 * (7 - i)) n)) [0..<8]"

definition pad256 :: "byte list \<Rightarrow> byte list" where
  "pad256 msg =
     (let len = length msg;
          zeros = (if len mod 64 < 56 then 55 - len mod 64 else 119 - len mod 64)
      in msg @ [0x80] @ replicate zeros 0 @ be64 (word_of_nat (8 * len)))"

definition init256 :: hstate where
  "init256 = (0x6a09e667, 0xbb67ae85, 0x3c6ef372, 0xa54ff53a,
              0x510e527f, 0x9b05688c, 0x1f83d9ab, 0x5be0cd19)"

definition be32bytes :: "w32 \<Rightarrow> byte list" where
  "be32bytes x = [ucast (drop_bit 24 x), ucast (drop_bit 16 x), ucast (drop_bit 8 x), ucast x]"

fun stateBytes :: "hstate \<Rightarrow> byte list" where
  "stateBytes (a, b, c, d, e, f, g, h) =
     be32bytes a @ be32bytes b @ be32bytes c @ be32bytes d @
     be32bytes e @ be32bytes f @ be32bytes g @ be32bytes h"

definition sha256 :: "byte list \<Rightarrow> byte list" where
  "sha256 msg =
     (let p = pad256 msg in stateBytes (foldl block256 init256 (blocks (length p div 64) p)))"

text \<open>\<^verbatim>\<open>fmt.Sprintf("%x", bytes)\<close>: two lowercase hexadecimal digits for each byte.\<close>

definition hexDigit :: "nat \<Rightarrow> char" where
  "hexDigit n = ''0123456789abcdef'' ! (n mod 16)"

definition hexByte :: "byte \<Rightarrow> string" where
  "hexByte b = [hexDigit (unat b div 16), hexDigit (unat b mod 16)]"

definition sprintf_x :: "byte list \<Rightarrow> string" where
  "sprintf_x bytes = concat (map hexByte bytes)"

section \<open>The dedupe command\<close>

definition calculateFileHash :: "fsnode \<Rightarrow> path \<Rightarrow> error + string" where
  "calculateFileHash fs filename =
     (case os_Open fs filename of
        Inl err \<Rightarrow> Inl err
      | Inr file \<Rightarrow>
          (case io_Copy file of
             Inl err \<Rightarrow> Inl err
           | Inr bytes \<Rightarrow> Inr (sprintf_x (sha256 bytes))))"

text \<open>
  \<^verbatim>\<open>fileMap\<close> is a Go map from key to a slice of paths. It is kept as an association
  list with one entry for each key; \<open>appendPath\<close> is
  \<^verbatim>\<open>fileMap[key] = append(fileMap[key], path)\<close>.
\<close>

type_synonym fileMap = "(string \<times> path list) list"

fun appendPath :: "string \<Rightarrow> path \<Rightarrow> fileMap \<Rightarrow> fileMap" where
  "appendPath key p [] = [(key, [p])]"
| "appendPath key p ((k, files) # m) =
     (if k = key then (k, files @ [p]) # m else (k, files) # appendPath key p m)"

text \<open>The closure handed to \<^verbatim>\<open>filepath.Walk\<close>.\<close>

definition dedupeWalkFn :: "fsnode \<Rightarrow> string \<Rightarrow> bool \<Rightarrow> path \<Rightarrow> fileMap WalkFunc" where
  "dedupeWalkFn fs by_flag recursive searchPath p info err fileMap =
     (if err \<noteq> None then (None, fileMap)
      else case info of
        None \<Rightarrow> (Some (Panic ''nil FileInfo''), fileMap)
      | Some i \<Rightarrow>
          if IsDir i then
            (if \<not> recursive \<and> p \<noteq> searchPath then (Some SkipDir, fileMap) else (None, fileMap))
          else if by_flag = ''hash'' then
            (case calculateFileHash fs p of
               Inl e \<Rightarrow> (None, fileMap)
             | Inr hash \<Rightarrow> (None, appendPath hash p fileMap))
          else (None, appendPath (Name i) p fileMap))"

text \<open>
  \<^verbatim>\<open>for key, files := range fileMap\<close> visits every entry once, in an order the
  run time picks. The picks are a parameter: at each step the next number selects one of
  the entries not visited yet.
\<close>

fun rangeOrder :: "nat list \<Rightarrow> 'a list \<Rightarrow> 'a list" where
  "rangeOrder picks [] = []"
| "rangeOrder [] (x # xs) = x # xs"
| "rangeOrder (c # picks) (x # xs) =
     (let i = c mod length (x # xs) in
      (x # xs) ! i # rangeOrder picks (take i (x # xs) @ drop (Suc i) (x # xs)))"

text \<open>Values held in the loosely typed \<^verbatim>\<open>map[string]interface{}\<close> results.\<close>

datatype govalue =
    GoString string
  | GoPath path
  | GoPaths "path list"
  | GoInt nat
  | GoBool bool
  | GoMap "(string \<times> govalue) list"
  | GoSlice "govalue list"

type_synonym gomap = "(string \<times> govalue) list"

text \<open>The loop over \<^verbatim>\<open>fileMap\<close> that builds \<^verbatim>\<open>duplicates\<close> and \<^verbatim>\<open>toDelete\<close>.\<close>

fun collect :: "string \<Rightarrow> fileMap \<Rightarrow> gomap list \<times> path list \<Rightarrow> gomap list \<times> path list" where
  "collect action [] acc = acc"
| "collect action ((key, files) # rest) (duplicates, toDelete) =
     (if length files > 1 then
        (let keep = files ! 0;
             dups = drop 1 files;
             duplicate = [(''key'', GoString key), (''keep'', GoPath keep),
                          (''duplicates'', GoPaths dups), (''count'', GoInt (length dups))]
         in collect action rest
              (duplicates @ [duplicate],
               if action = ''delete'' then toDelete @ dups else toDelete))
      else collect action rest (duplicates, toDelete))"

subsection \<open>Package \<^verbatim>\<open>output\<close>\<close>

definition FormatPlain :: string where "FormatPlain = ''plain''"
definition FormatJSON :: string where "FormatJSON = ''json''"
definition FormatTable :: string where "FormatTable = ''table''"

record Result =
  Success :: bool
  Data :: "govalue option"
  Error :: string

text \<open>What the command writes, one constructor for each print statement.\<close>

datatype printed =
    JSONOut Result
  | TableOut Result
  | PlainOut Result
  | GroupLine "govalue option"
  | KeepLine "govalue option"
  | DuplicateLine path
  | DryRunBanner
  | DeletingBanner
  | FailedLine path error
  | DeletedLine path
  | WouldDeleteLine path
  | FoundLine nat

definition Print :: "string \<Rightarrow> Result \<Rightarrow> printed list" where
  "Print format result =
     (if format = FormatJSON then [JSONOut result]
      else if format = FormatTable then [TableOut result]
      else [PlainOut result])"

definition PrintSuccess :: "string \<Rightarrow> govalue \<Rightarrow> printed list" where
  "PrintSuccess format data = Print format \<lparr>Success = True, Data = Some data, Error = []\<rparr>"

subsection \<open>\<^verbatim>\<open>runDedupe\<close>\<close>

record flags =
  flag_by :: string
  flag_action :: string
  flag_dry_run :: bool
  flag_recursive :: bool
  flag_output :: string

record outcome =
  ret :: "error option"
  world :: fsnode
  stdout :: "printed list"

text \<open>
  The plain listing of the groups; \<^verbatim>\<open>dup["duplicates"].([]string)\<close> panics when the
  entry does not hold a slice of paths.
\<close>

fun printGroups :: "gomap list \<Rightarrow> error + printed list" where
  "printGroups [] = Inr []"
| "printGroups (dup # rest) =
     (case map_of dup ''duplicates'' of
        Some (GoPaths files) \<Rightarrow>
          (case printGroups rest of
             Inl e \<Rightarrow> Inl e
           | Inr out \<Rightarrow>
               Inr ([GroupLine (map_of dup ''key''), KeepLine (map_of dup ''keep'')]
                    @ map DuplicateLine files @ out))
      | _ \<Rightarrow> Inl (Panic ''interface conversion''))"

text \<open>The loop over \<^verbatim>\<open>toDelete\<close>.\<close>

fun deleteLoop :: "bool \<Rightarrow> path list \<Rightarrow> fsnode \<Rightarrow> fsnode \<times> printed list" where
  "deleteLoop dryRun [] fs = (fs, [])"
| "deleteLoop dryRun (file # rest) fs =
     (if \<not> dryRun then
        (case os_Remove fs file of
           Inl err \<Rightarrow>
             (case deleteLoop dryRun rest fs of (fs', out) \<Rightarrow> (fs', FailedLine file err # out))
         | Inr fs1 \<Rightarrow>
             (case deleteLoop dryRun rest fs1 of (fs', out) \<Rightarrow> (fs', DeletedLine file # out)))
      else
        (case deleteLoop dryRun rest fs of (fs', out) \<Rightarrow> (fs', WouldDeleteLine file # out)))"

definition searchPathOf :: "path list \<Rightarrow> path" where
  "searchPathOf args = (if length args > 0 then args ! 0 else [])"

definition scan :: "flags \<Rightarrow> path list \<Rightarrow> fsnode \<Rightarrow> error option \<times> fileMap" where
  "scan fl args fs =
     Walk fs (searchPathOf args)
       (dedupeWalkFn fs (flag_by fl) (flag_recursive fl) (searchPathOf args)) []"

definition runDedupe :: "nat list \<Rightarrow> flags \<Rightarrow> path list \<Rightarrow> fsnode \<Rightarrow> outcome" where
  "runDedupe picks fl args fs =
     (let searchPath = searchPathOf args;
          action = flag_action fl;
          dryRun = flag_dry_run fl;
          format = flag_output fl
      in case scan fl args fs of
        (Some err, fileMap) \<Rightarrow>
          \<lparr>ret = Some (Errorf ''dedupe error'' err), world = fs, stdout = []\<rparr>
      | (None, fileMap) \<Rightarrow>
          (case collect action (rangeOrder picks fileMap) ([], []) of
             (duplicates, toDelete) \<Rightarrow>
               if format = FormatJSON then
                 \<lparr>ret = None, world = fs,
                  stdout = PrintSuccess format (GoMap
                    [(''path'', GoPath searchPath),
                     (''method'', GoString (flag_by fl)),
                     (''duplicates'', GoSlice (map GoMap duplicates)),
                     (''count'', GoInt (length duplicates)),
                     (''to_delete'', GoInt (length toDelete)),
                     (''dry_run'', GoBool dryRun)])\<rparr>
               else
                 (case printGroups duplicates of
                    Inl e \<Rightarrow> \<lparr>ret = Some e, world = fs, stdout = []\<rparr>
                  | Inr groupLines \<Rightarrow>
                      (case (if action = ''delete'' \<and> length toDelete > 0 then
                               (case deleteLoop dryRun toDelete fs of
                                  (fs', out) \<Rightarrow>
                                    (fs', (if dryRun then DryRunBanner else DeletingBanner) # out))
                             else (fs, [])) of
                         (fs', deleteLines) \<Rightarrow>
                           \<lparr>ret = None, world = fs',
                            stdout = groupLines @ deleteLines @ [FoundLine (length duplicates)]\<rparr>))))"

section \<open>Walk order, plan and removal outcomes\<close>

text \<open>
  The walk order is the sequence of calls \<^verbatim>\<open>filepath.Walk\<close> makes to the walk
  function. \<open>traced\<close> runs a walk function and logs the arguments of every call.
\<close>

type_synonym visit = "path \<times> FileInfo option \<times> error option"

definition traced :: "'s WalkFunc \<Rightarrow> ('s \<times> visit list) WalkFunc" where
  "traced fn p info err st =
     (case fn p info err (fst st) of (r, s1) \<Rightarrow> (r, (s1, snd st @ [(p, info, err)])))"

definition applyVisit :: "'s WalkFunc \<Rightarrow> 's \<Rightarrow> visit \<Rightarrow> 's" where
  "applyVisit fn s v = (case v of (p, info, err) \<Rightarrow> snd (fn p info err s))"

definition visits :: "flags \<Rightarrow> path list \<Rightarrow> fsnode \<Rightarrow> visit list" where
  "visits fl args fs =
     snd (snd (Walk fs (searchPathOf args)
       (traced (dedupeWalkFn fs (flag_by fl) (flag_recursive fl) (searchPathOf args))) ([], [])))"

text \<open>The key and path the walk function records at one call: none or one pair.\<close>

definition recorded :: "flags \<Rightarrow> path list \<Rightarrow> fsnode \<Rightarrow> visit \<Rightarrow> (string \<times> path) list" where
  "recorded fl args fs v =
     (case v of (p, info, err) \<Rightarrow>
        map (\<lambda>(k, files). (k, p))
          (snd (dedupeWalkFn fs (flag_by fl) (flag_recursive fl) (searchPathOf args) p info err [])))"

definition discovered :: "flags \<Rightarrow> path list \<Rightarrow> fsnode \<Rightarrow> (string \<times> path) list" where
  "discovered fl args fs = concat (map (recorded fl args fs) (visits fl args fs))"

text \<open>The files discovered under one key, in walk order.\<close>

definition membersOf :: "flags \<Rightarrow> path list \<Rightarrow> fsnode \<Rightarrow> string \<Rightarrow> path list" where
  "membersOf fl args fs key = map snd (filter (\<lambda>kp. fst kp = key) (discovered fl args fs))"

text \<open>The values of \<^verbatim>\<open>duplicates\<close> and \<^verbatim>\<open>toDelete\<close> after the loop over the map.\<close>

definition plan :: "nat list \<Rightarrow> flags \<Rightarrow> path list \<Rightarrow> fsnode \<Rightarrow> gomap list \<times> path list" where
  "plan picks fl args fs =
     collect (flag_action fl) (rangeOrder picks (snd (scan fl args fs))) ([], [])"

text \<open>The removal attempts a run reports: path, removed or not, and the error.\<close>

fun removalOutcomes :: "printed list \<Rightarrow> (path \<times> bool \<times> error option) list" where
  "removalOutcomes [] = []"
| "removalOutcomes (FailedLine p e # out) = (p, False, Some e) # removalOutcomes out"
| "removalOutcomes (DeletedLine p # out) = (p, True, None) # removalOutcomes out"
| "removalOutcomes (other # out) = removalOutcomes out"

text \<open>The report handed to \<^verbatim>\<open>output.PrintSuccess\<close>, when there is one.\<close>

fun jsonReport :: "printed list \<Rightarrow> gomap option" where
  "jsonReport [JSONOut r] = (case Data r of Some (GoMap m) \<Rightarrow> Some m | _ \<Rightarrow> None)"
| "jsonReport _ = None"

text \<open>A directory holds each name once.\<close>

fun wellFormed :: "fsnode \<Rightarrow> bool" where
  "wellFormed (Dir l es) = (distinct (map fst es) \<and> (\<forall>e \<in> set es. wellFormed (snd e)))"
| "wellFormed _ = True"

text \<open>The calls made during the walk of one node, and of the names of one directory.\<close>

definition walkTrace :: "'s WalkFunc \<Rightarrow> path \<Rightarrow> string \<Rightarrow> fsnode \<Rightarrow> 's \<Rightarrow> visit list" where
  "walkTrace fn p nm node s = snd (snd (walk (traced fn) p nm node (s, [])))"

definition namesTrace :: "'s WalkFunc \<Rightarrow> path \<Rightarrow> (string \<times> fsnode) list \<Rightarrow> 's \<Rightarrow> visit list" where
  "namesTrace fn p es s = snd (snd (walkNames (traced fn) p es (s, [])))"

text \<open>Recording one discovered pair, and the entry built for one key of the map.\<close>

definition record1 :: "fileMap \<Rightarrow> string \<times> path \<Rightarrow> fileMap" where
  "record1 m kp = appendPath (fst kp) (snd kp) m"

definition mkDuplicate :: "string \<times> path list \<Rightarrow> gomap" where
  "mkDuplicate e =
     [(''key'', GoString (fst e)), (''keep'', GoPath (snd e ! 0)),
      (''duplicates'', GoPaths (drop 1 (snd e))), (''count'', GoInt (length (drop 1 (snd e))))]"

text \<open>The entries of the map that hold more than one file, in the order the loop meets them.\<close>

definition duplicateEntries :: "nat list \<Rightarrow> flags \<Rightarrow> path list \<Rightarrow> fsnode \<Rightarrow> fileMap" where
  "duplicateEntries picks fl args fs =
     filter (\<lambda>e. length (snd e) > 1) (rangeOrder picks (snd (scan fl args fs)))"

text \<open>The lines the plain listing prints for one such entry.\<close>

definition groupLines :: "string \<times> path list \<Rightarrow> printed list" where
  "groupLines e =
     [GroupLine (Some (GoString (fst e))), KeepLine (Some (GoPath (snd e ! 0)))]
     @ map DuplicateLine (drop 1 (snd e))"

text \<open>
  What holds of every call of the walk below \<open>p\<close>: the path extends \<open>p\<close>, a file info
  carries the last component as its name, and a call without file info carries an error.
\<close>

definition visitOk :: "path \<Rightarrow> string \<Rightarrow> visit \<Rightarrow> bool" where
  "visitOk p nm v =
     (case v of (q, info, err) \<Rightarrow>
        take (length p) q = p \<and>
        (case info of
           None \<Rightarrow> err \<noteq> None
         | Some i \<Rightarrow> Name i = (if q = p then nm else last q)))"

text \<open>Example trees and flags: the scenarios named in the design notes of the command.\<close>

definition photos :: fsnode where
  "photos = Dir True
     [(''dir1'', Dir True [(''img.jpg'', File (Content [1]) True)]),
      (''dir2'', Dir True [(''img.jpg'', File (Content [2]) True),
                           (''notes.txt'', File (Content [3]) True)])]"

definition byName :: "string \<Rightarrow> bool \<Rightarrow> string \<Rightarrow> flags" where
  "byName action dryRun format =
     \<lparr>flag_by = ''name'', flag_action = action, flag_dry_run = dryRun,
      flag_recursive = True, flag_output = format\<rparr>"

text \<open>The members a group entry lists: the file kept, then the duplicates.\<close>

definition groupMembers :: "gomap \<Rightarrow> path list" where
  "groupMembers d =
     (case map_of d ''keep'' of Some (GoPath keep) \<Rightarrow> [keep] | _ \<Rightarrow> [])
     @ (case map_of d ''duplicates'' of Some (GoPaths dups) \<Rightarrow> dups | _ \<Rightarrow> [])"

definition imgGroup :: gomap where
  "imgGroup = [(''key'', GoString ''img.jpg''), (''keep'', GoPath [''dir1'', ''img.jpg'']),
     (''duplicates'', GoPaths [[''dir2'', ''img.jpg'']]), (''count'', GoInt 1)]"

text \<open>
  A download folder for the hash strategy: two copies of the three bytes \<^verbatim>\<open>abc\<close> and a
  file that cannot be read. \<open>abcKey\<close> is the SHA-256 digest of \<^verbatim>\<open>abc\<close> in hexadecimal.
\<close>

definition abc :: "byte list" where
  "abc = [0x61, 0x62, 0x63]"

definition abcKey :: string where
  "abcKey = ''ba7816bf8f01cfea414140de5dae2223b00361a396177a9cb410ff61f20015ad''"

definition downloads :: fsnode where
  "downloads = Dir True
     [(''a.txt'', File (Content abc) True),
      (''b.txt'', File (Content abc) True),
      (''c.txt'', File ReadFails True)]"

definition byHash :: "string \<Rightarrow> bool \<Rightarrow> string \<Rightarrow> flags" where
  "byHash action dryRun format =
     \<lparr>flag_by = ''hash'', flag_action = action, flag_dry_run = dryRun,
      flag_recursive = False, flag_output = format\<rparr>"

section \<open>The walk and its trace\<close>

lemma traced_apply:
  "traced fn p info err (s, tr) =
     (fst (fn p info err s), (snd (fn p info err s), tr @ [(p, info, err)]))"
  by (simp add: traced_def split: prod.splits)

lemma applyVisit_apply: "applyVisit fn s (p, info, err) = snd (fn p info err s)"
  by (simp add: applyVisit_def)

lemma traced_sim:
  fixes fn :: "'s WalkFunc"
  shows "\<exists>vs. (\<forall>tr. walk (traced fn) p nm node (s, tr) =
           (fst (walk fn p nm node s), (snd (walk fn p nm node s), tr @ vs)))
         \<and> snd (walk fn p nm node s) = foldl (applyVisit fn) s vs"
    and "\<exists>vs. (\<forall>tr. walkNames (traced fn) p es (s, tr) =
           (fst (walkNames fn p es s), (snd (walkNames fn p es s), tr @ vs)))
         \<and> snd (walkNames fn p es s) = foldl (applyVisit fn) s vs"
proof (induction fn p nm node s and fn p es s rule: walk_walkNames.induct)
  case (1 walkFn path name d r s)
  show ?case
    by (rule exI[of _ "[(path, Some \<lparr>Name = name, IsDir = False\<rparr>, None)]"])
       (simp add: traced_apply applyVisit_apply)
next
  case (2 walkFn path name s)
  show ?case
    by (rule exI[of _ "[(path, None, Some EACCES)]"])
       (simp add: traced_apply applyVisit_apply)
next
  case (3 walkFn path name listable es s)
  let ?err = "if listable then None else Some EACCES"
  let ?v = "(path, Some \<lparr>Name = name, IsDir = True\<rparr>, ?err)"
  obtain err1 s1 where cb: "walkFn path (Some \<lparr>Name = name, IsDir = True\<rparr>) ?err s = (err1, s1)"
    by fastforce
  show ?case
  proof (cases "?err \<noteq> None \<or> err1 \<noteq> None")
    case True
    show ?thesis
      by (rule exI[of _ "[?v]"])
         (use True cb in \<open>auto simp add: traced_apply applyVisit_apply split: if_splits\<close>)
  next
    case False
    from 3[OF refl cb[symmetric] False]
    obtain vs where vs: "\<And>tr. walkNames (traced walkFn) path es (s1, tr) =
          (fst (walkNames walkFn path es s1), snd (walkNames walkFn path es s1), tr @ vs)"
        "snd (walkNames walkFn path es s1) = foldl (applyVisit walkFn) s1 vs"
      by blast
    show ?thesis
      by (rule exI[of _ "?v # vs"])
         (use False cb vs in \<open>auto simp add: traced_apply applyVisit_apply split: if_splits\<close>)
  qed
next
  case (4 walkFn path s)
  show ?case by simp
next
  case (5 walkFn path name node rest s)
  let ?f = "Join path name"
  show ?case
  proof (cases "node = Unstatable")
    case True
    let ?v = "(?f, None, Some EACCES)"
    obtain r s1 where cb: "walkFn ?f None (Some EACCES) s = (r, s1)"
      by fastforce
    show ?thesis
    proof (cases "r = None \<or> r = Some SkipDir")
      case go: True
      have "\<exists>vs. (\<forall>tr. walkNames (traced walkFn) path rest (s1, tr) =
          (fst (walkNames walkFn path rest s1), snd (walkNames walkFn path rest s1), tr @ vs))
          \<and> snd (walkNames walkFn path rest s1) = foldl (applyVisit walkFn) s1 vs"
        using go 5(7)[OF refl True cb[symmetric]] 5(8)[OF refl True cb[symmetric]]
        by (cases r) auto
      then obtain vs where vs: "\<And>tr. walkNames (traced walkFn) path rest (s1, tr) =
          (fst (walkNames walkFn path rest s1), snd (walkNames walkFn path rest s1), tr @ vs)"
          "snd (walkNames walkFn path rest s1) = foldl (applyVisit walkFn) s1 vs"
        by blast
      show ?thesis
        by (rule exI[of _ "?v # vs"])
           (use True go cb vs in \<open>auto simp add: traced_apply applyVisit_apply split: if_splits\<close>)
    next
      case stop: False
      show ?thesis
        by (rule exI[of _ "[?v]"])
           (use True stop cb in \<open>auto simp add: traced_apply applyVisit_apply split: if_splits option.splits\<close>)
    qed
  next
    case False
    have "\<exists>vs. (\<forall>tr. walk (traced walkFn) ?f name node (s, tr) =
           (fst (walk walkFn ?f name node s), (snd (walk walkFn ?f name node s), tr @ vs)))
         \<and> snd (walk walkFn ?f name node s) = foldl (applyVisit walkFn) s vs"
      using False 5(1)[OF refl] 5(4)[OF refl] by (cases node) auto
    then obtain vs1 where vs1: "\<And>tr. walk (traced walkFn) ?f name node (s, tr) =
           (fst (walk walkFn ?f name node s), (snd (walk walkFn ?f name node s), tr @ vs1))"
         "snd (walk walkFn ?f name node s) = foldl (applyVisit walkFn) s vs1"
      by blast
    obtain r s1 where w: "walk walkFn ?f name node s = (r, s1)"
      by fastforce
    show ?thesis
    proof (cases "r = None \<or> (isDirNode node \<and> r = Some SkipDir)")
      case go: True
      have "\<exists>vs. (\<forall>tr. walkNames (traced walkFn) path rest (s1, tr) =
          (fst (walkNames walkFn path rest s1), snd (walkNames walkFn path rest s1), tr @ vs))
          \<and> snd (walkNames walkFn path rest s1) = foldl (applyVisit walkFn) s1 vs"
        using go False 5(2)[OF refl _ w[symmetric]] 5(3)[OF refl _ w[symmetric]]
              5(5)[OF refl _ w[symmetric]] 5(6)[OF refl _ w[symmetric]]
        by (cases node; cases r) auto
      then obtain vs where vs: "\<And>tr. walkNames (traced walkFn) path rest (s1, tr) =
          (fst (walkNames walkFn path rest s1), snd (walkNames walkFn path rest s1), tr @ vs)"
          "snd (walkNames walkFn path rest s1) = foldl (applyVisit walkFn) s1 vs"
        by blast
      show ?thesis
        by (rule exI[of _ "vs1 @ vs"])
           (use False go w vs vs1 in \<open>cases node; auto split: if_splits option.splits\<close>)
    next
      case stop: False
      show ?thesis
        by (rule exI[of _ "vs1"])
           (use False stop w vs1 in \<open>cases node; auto split: if_splits option.splits\<close>)
    qed
  qed
qed

lemma walk_traced:
  "walk (traced fn) p nm node (s, tr) =
     (fst (walk fn p nm node s), snd (walk fn p nm node s), tr @ walkTrace fn p nm node s)"
  using traced_sim(1)[of fn p nm node s] by (auto simp: walkTrace_def)

lemma walkNames_traced:
  "walkNames (traced fn) p es (s, tr) =
     (fst (walkNames fn p es s), snd (walkNames fn p es s), tr @ namesTrace fn p es s)"
  using traced_sim(2)[of fn p es s] by (auto simp: namesTrace_def)

lemma walk_fold: "snd (walk fn p nm node s) = foldl (applyVisit fn) s (walkTrace fn p nm node s)"
  using traced_sim(1)[of fn p nm node s] by (auto simp: walkTrace_def)

lemma walkNames_fold: "snd (walkNames fn p es s) = foldl (applyVisit fn) s (namesTrace fn p es s)"
  using traced_sim(2)[of fn p es s] by (auto simp: namesTrace_def)

lemma walkTrace_File [simp]:
  "walkTrace fn p nm (File d r) s = [(p, Some \<lparr>Name = nm, IsDir = False\<rparr>, None)]"
  by (simp add: walkTrace_def traced_apply)

lemma walkTrace_Unstatable [simp]:
  "walkTrace fn p nm Unstatable s = [(p, None, Some EACCES)]"
  by (simp add: walkTrace_def traced_apply)

lemma walkTrace_Dir:
  "walkTrace fn p nm (Dir listable es) s =
     (let err = (if listable then None else Some EACCES);
          info = Some \<lparr>Name = nm, IsDir = True\<rparr> in
      (p, info, err) #
        (if err \<noteq> None \<or> fst (fn p info err s) \<noteq> None then []
         else namesTrace fn p es (snd (fn p info err s))))"
  by (simp add: walkTrace_def traced_apply walkNames_traced Let_def)

lemma namesTrace_Nil [simp]: "namesTrace fn p [] s = []"
  by (simp add: namesTrace_def)

lemma walkNames_Cons:
  "walkNames fn p ((name, node) # rest) s =
     (let r = walk fn (Join p name) name node s in
      if fst r = None \<or> (fst r = Some SkipDir \<and> (isDirNode node \<or> node = Unstatable))
      then walkNames fn p rest (snd r) else r)"
proof (cases node)
  case (File d x)
  then show ?thesis
    by (simp del: walk.simps add: Let_def split: prod.splits option.splits)
next
  case (Dir l es)
  then show ?thesis
    by (simp del: walk.simps add: Let_def split: prod.splits option.splits)
next
  case Unstatable
  then show ?thesis
    by (simp add: Let_def split: prod.splits option.splits)
qed

lemma namesTrace_Cons:
  "namesTrace fn p ((name, node) # rest) s =
     walkTrace fn (Join p name) name node s @
       (let r = walk fn (Join p name) name node s in
        if fst r = None \<or> (fst r = Some SkipDir \<and> (isDirNode node \<or> node = Unstatable))
        then namesTrace fn p rest (snd r) else [])"
  apply (subst namesTrace_def)
  apply (subst walkNames_Cons)
  apply (auto simp del: walk.simps walkNames.simps simp add: walk_traced walkNames_traced Let_def)
  done

lemma fsnode_induct [case_names File Unstatable Dir]:
  assumes "\<And>d r. P (File d r)" and "P Unstatable"
    and "\<And>l es. (\<And>n node. (n, node) \<in> set es \<Longrightarrow> P node) \<Longrightarrow> P (Dir l es)"
  shows "P node"
proof (induction node)
  case (File d r)
  show ?case by (rule assms(1))
next
  case (Dir l es)
  show ?case
  proof (rule assms(3))
    fix n node
    assume "(n, node) \<in> set es"
    then show "P node"
      using Dir by (auto simp: snds.simps)
  qed
next
  case Unstatable
  show ?case by (rule assms(2))
qed

subsection \<open>The walk function of the command never stops the walk\<close>

lemma dedupeWalkFn_err [simp]:
  "dedupeWalkFn fs b rec sp p info (Some e) m = (None, m)"
  by (simp add: dedupeWalkFn_def)

lemma dedupeWalkFn_dir [simp]:
  "dedupeWalkFn fs b rec sp p (Some \<lparr>Name = nm, IsDir = True\<rparr>) None m =
     (if \<not> rec \<and> p \<noteq> sp then Some SkipDir else None, m)"
  by (simp add: dedupeWalkFn_def)

lemma dedupeWalkFn_file [simp]:
  "dedupeWalkFn fs b rec sp p (Some \<lparr>Name = nm, IsDir = False\<rparr>) None m =
     (None,
      if b = ''hash'' then
        (case calculateFileHash fs p of Inl e \<Rightarrow> m | Inr h \<Rightarrow> appendPath h p m)
      else appendPath nm p m)"
  by (simp add: dedupeWalkFn_def split: sum.splits)

lemma walkNames_append:
  "walkNames fn p (es1 @ es2) s =
     (let r = walkNames fn p es1 s in
      if fst r = None then walkNames fn p es2 (snd r) else r)"
proof (induction es1 arbitrary: s)
  case Nil
  show ?case by simp
next
  case (Cons e es1)
  obtain name node where e: "e = (name, node)" by (cases e)
  show ?case
    unfolding e append_Cons
    by (auto simp del: walk.simps walkNames.simps simp add: walkNames_Cons Cons Let_def)
qed

lemma dedupe_walk_ok:
  "fst (walk (dedupeWalkFn fs b rec sp) p nm node m) = None
   \<or> (fst (walk (dedupeWalkFn fs b rec sp) p nm node m) = Some SkipDir \<and> isDirNode node)"
proof (induction node arbitrary: p nm m rule: fsnode_induct)
  case (File d r)
  show ?case by simp
next
  case Unstatable
  show ?case by simp
next
  case (Dir l es)
  have names: "fst (walkNames (dedupeWalkFn fs b rec sp) q es' m') = None"
    if "set es' \<subseteq> set es" for q es' m'
    using that
  proof (induction es' arbitrary: m')
    case Nil
    show ?case by simp
  next
    case (Cons e es')
    obtain name node where e: "e = (name, node)" by (cases e)
    have "(name, node) \<in> set es" using Cons.prems e by auto
    from Dir[OF this, of "Join q name" name m'] Cons.IH Cons.prems
    show ?case
      unfolding e by (subst walkNames_Cons) (auto simp del: walk.simps walkNames.simps simp add: Let_def)
  qed
  show ?case
    using names[of es p] by (auto simp: Let_def split: prod.splits)
qed

lemma dedupe_walkNames_ok: "fst (walkNames (dedupeWalkFn fs b rec sp) p es m) = None"
proof (induction es arbitrary: m)
  case Nil
  show ?case by simp
next
  case (Cons e es)
  obtain name node where e: "e = (name, node)" by (cases e)
  from dedupe_walk_ok[of fs b rec sp "Join p name" name node m] Cons
  show ?case
    unfolding e by (subst walkNames_Cons) (auto simp del: walk.simps walkNames.simps simp add: Let_def)
qed

lemma Walk_dedupe_ok: "fst (Walk fs root (dedupeWalkFn fs' b rec sp) m) = None"
proof (cases "lookup fs root")
  case None
  then show ?thesis by (simp add: Walk_def)
next
  case (Some node)
  obtain r m1 where w: "walk (dedupeWalkFn fs' b rec sp) root (Base root) node m = (r, m1)"
    by fastforce
  have "r = None \<or> r = Some SkipDir"
    using dedupe_walk_ok[of fs' b rec sp root "Base root" node m] w by auto
  then show ?thesis
    using Some w by (cases node) (auto simp del: walk.simps simp add: Walk_def)
qed

lemma scan_ok: "fst (scan fl args fs) = None"
  by (simp add: scan_def Walk_dedupe_ok)

subsection \<open>Grouping\<close>

lemma appendPath_keys:
  "map fst (appendPath k p m) = (if k \<in> set (map fst m) then map fst m else map fst m @ [k])"
  by (induction m) (force split: if_splits)+

lemma appendPath_distinct: "distinct (map fst m) \<Longrightarrow> distinct (map fst (appendPath k p m))"
  by (simp add: appendPath_keys)

lemma appendPath_map_of:
  "map_of (appendPath k p m) k' =
     (if k' = k then Some ((case map_of m k of None \<Rightarrow> [] | Some files \<Rightarrow> files) @ [p])
      else map_of m k')"
  by (induction m) (auto split: if_splits)

lemma group_invariant:
  "distinct (map fst (foldl record1 [] l))
   \<and> (\<forall>k. map_of (foldl record1 [] l) k =
          (if k \<in> fst ` set l then Some (map snd (filter (\<lambda>kp. fst kp = k) l)) else None))"
proof (induction l rule: rev_induct)
  case Nil
  show ?case by simp
next
  case (snoc kp l)
  then show ?case
    by (auto simp: record1_def appendPath_distinct appendPath_map_of filter_empty_conv image_iff)
qed

lemma rangeOrder_mset: "mset (rangeOrder picks xs) = mset xs"
proof (induction picks xs rule: rangeOrder.induct)
  case (3 c picks x xs)
  define ys where "ys = x # xs"
  define i where "i = c mod length ys"
  have i: "i < length ys" by (simp add: i_def ys_def)
  have ih: "mset (rangeOrder picks (take i ys @ drop (Suc i) ys)) = mset (take i ys @ drop (Suc i) ys)"
    using 3 by (simp add: ys_def i_def)
  have "rangeOrder (c # picks) ys = ys ! i # rangeOrder picks (take i ys @ drop (Suc i) ys)"
    by (simp add: ys_def i_def Let_def)
  then have "mset (rangeOrder (c # picks) ys) = mset (take i ys @ ys ! i # drop (Suc i) ys)"
    using ih by simp
  also have "\<dots> = mset ys"
    using id_take_nth_drop[OF i] by simp
  finally show ?case by (simp add: ys_def)
qed simp_all

lemma rangeOrder_set: "set (rangeOrder picks xs) = set xs"
  using rangeOrder_mset[of picks xs] by (metis set_mset_mset)

lemma rangeOrder_distinct_keys:
  "distinct (map fst m) \<Longrightarrow> distinct (map fst (rangeOrder picks m))"
proof -
  assume d: "distinct (map fst m)"
  have "mset (map fst (rangeOrder picks m)) = mset (map fst m)"
    using rangeOrder_mset[of picks m] by (metis mset_map)
  then show ?thesis using d by (metis mset_eq_imp_distinct_iff)
qed

subsection \<open>The loop over the map\<close>

lemma collect_eq:
  "collect action m (ds, td) =
     (ds @ map mkDuplicate (filter (\<lambda>e. length (snd e) > 1) m),
      td @ (if action = ''delete''
            then concat (map (\<lambda>e. drop 1 (snd e)) (filter (\<lambda>e. length (snd e) > 1) m))
            else []))"
  by (induction m arbitrary: ds td) (auto simp: mkDuplicate_def Let_def)

lemma printGroups_ok: "printGroups (map mkDuplicate m) = Inr (concat (map groupLines m))"
  by (induction m) (auto simp: mkDuplicate_def groupLines_def)

lemma deleteLoop_dry: "deleteLoop True td fs = (fs, map WouldDeleteLine td)"
  by (induction td) auto

lemma removalOutcomes_append:
  "removalOutcomes (xs @ ys) = removalOutcomes xs @ removalOutcomes ys"
  by (induction xs rule: removalOutcomes.induct) auto

subsection \<open>The map after the walk\<close>

lemma Walk_traced:
  "Walk fs root (traced fn) (s, []) =
     (fst (Walk fs root fn s), snd (Walk fs root fn s),
      (case lookup fs root of
         None \<Rightarrow> [(root, None, Some ENOENT)]
       | Some Unstatable \<Rightarrow> [(root, None, Some EACCES)]
       | Some node \<Rightarrow> walkTrace fn root (Base root) node s))"
  by (auto simp del: walk.simps simp add: Walk_def traced_apply walk_traced
           split: option.splits fsnode.splits prod.splits)

lemma Walk_fold:
  "snd (Walk fs root fn s) = foldl (applyVisit fn) s (snd (snd (Walk fs root (traced fn) (s, []))))"
proof -
  have "snd (Walk fs root fn s) =
     (case lookup fs root of
         None \<Rightarrow> snd (fn root None (Some ENOENT) s)
       | Some Unstatable \<Rightarrow> snd (fn root None (Some EACCES) s)
       | Some node \<Rightarrow> snd (walk fn root (Base root) node s))"
    by (auto simp del: walk.simps simp add: Walk_def split: option.splits fsnode.splits prod.splits)
  then show ?thesis
    by (auto simp del: walk.simps simp add: Walk_traced applyVisit_apply walk_fold
             split: option.splits fsnode.splits)
qed

lemma visits_eq:
  "visits fl args fs =
     (let root = searchPathOf args in
      case lookup fs root of
         None \<Rightarrow> [(root, None, Some ENOENT)]
       | Some Unstatable \<Rightarrow> [(root, None, Some EACCES)]
       | Some node \<Rightarrow>
           walkTrace (dedupeWalkFn fs (flag_by fl) (flag_recursive fl) root) root (Base root) node [])"
  by (simp add: visits_def Walk_traced Let_def)

lemma dedupeWalkFn_records:
  "snd (dedupeWalkFn fs b rec sp p info err m) =
     foldl record1 m (map (\<lambda>(k, files). (k, p)) (snd (dedupeWalkFn fs b rec sp p info err [])))"
  by (auto simp: dedupeWalkFn_def record1_def split: option.splits sum.splits)

lemma foldl_concat_map:
  "foldl f s (concat (map g vs)) = foldl (\<lambda>s v. foldl f s (g v)) s vs"
  by (induction vs arbitrary: s) auto

lemma scan_discovered: "snd (scan fl args fs) = foldl record1 [] (discovered fl args fs)"
proof -
  let ?D = "dedupeWalkFn fs (flag_by fl) (flag_recursive fl) (searchPathOf args)"
  have step: "applyVisit ?D m v = foldl record1 m (recorded fl args fs v)" for m v
    by (cases v) (simp add: applyVisit_apply recorded_def dedupeWalkFn_records[symmetric])
  have "snd (scan fl args fs) = foldl (applyVisit ?D) [] (visits fl args fs)"
    unfolding scan_def visits_def by (rule Walk_fold)
  also have "\<dots> = foldl record1 [] (discovered fl args fs)"
    using ext[of "applyVisit ?D" _, OF ext, of "\<lambda>m v. foldl record1 m (recorded fl args fs v)", OF step]
    by (simp add: discovered_def foldl_concat_map)
  finally show ?thesis .
qed

text \<open>The map holds, under each key discovered, the paths discovered under it, in walk order.\<close>

lemma scan_keys_distinct: "distinct (map fst (snd (scan fl args fs)))"
  using group_invariant[of "discovered fl args fs"] by (simp add: scan_discovered)

lemma scan_entry:
  "(k, files) \<in> set (snd (scan fl args fs)) \<longleftrightarrow>
     (files = membersOf fl args fs k \<and> k \<in> fst ` set (discovered fl args fs))"
proof -
  have "(k, files) \<in> set (snd (scan fl args fs)) \<longleftrightarrow> map_of (snd (scan fl args fs)) k = Some files"
    using scan_keys_distinct[of fl args fs] by (auto dest: map_of_SomeD)
  then show ?thesis
    using group_invariant[of "discovered fl args fs"]
    by (auto simp: scan_discovered membersOf_def)
qed

lemma membersOf_nonempty:
  "k \<in> fst ` set (discovered fl args fs) \<longleftrightarrow> membersOf fl args fs k \<noteq> []"
  by (auto simp: membersOf_def filter_empty_conv image_iff)

subsection \<open>The run, phase by phase\<close>

lemma plan_eq:
  "plan picks fl args fs =
     (map mkDuplicate (duplicateEntries picks fl args fs),
      if flag_action fl = ''delete''
      then concat (map (\<lambda>e. drop 1 (snd e)) (duplicateEntries picks fl args fs)) else [])"
  by (simp add: plan_def collect_eq duplicateEntries_def)

lemma runDedupe_json:
  assumes "flag_output fl = FormatJSON"
  shows "runDedupe picks fl args fs =
     \<lparr>ret = None, world = fs,
      stdout = [JSONOut \<lparr>Success = True,
        Data = Some (GoMap
          [(''path'', GoPath (searchPathOf args)),
           (''method'', GoString (flag_by fl)),
           (''duplicates'', GoSlice (map GoMap (fst (plan picks fl args fs)))),
           (''count'', GoInt (length (fst (plan picks fl args fs)))),
           (''to_delete'', GoInt (length (snd (plan picks fl args fs)))),
           (''dry_run'', GoBool (flag_dry_run fl))]),
        Error = []\<rparr>]\<rparr>"
proof -
  obtain m where m: "scan fl args fs = (None, m)"
    using scan_ok[of fl args fs] by (cases "scan fl args fs") auto
  show ?thesis
    using assms m
    by (simp add: runDedupe_def plan_def PrintSuccess_def Print_def Let_def split: prod.splits)
qed

lemma runDedupe_plain:
  assumes "flag_output fl \<noteq> FormatJSON"
  shows "runDedupe picks fl args fs =
     (let toDelete = snd (plan picks fl args fs);
          deleting = (flag_action fl = ''delete'' \<and> toDelete \<noteq> []);
          loop = deleteLoop (flag_dry_run fl) toDelete fs
      in \<lparr>ret = None,
          world = (if deleting then fst loop else fs),
          stdout =
            concat (map groupLines (duplicateEntries picks fl args fs))
            @ (if deleting
               then (if flag_dry_run fl then DryRunBanner else DeletingBanner) # snd loop
               else [])
            @ [FoundLine (length (fst (plan picks fl args fs)))]\<rparr>)"
proof -
  obtain m where m: "scan fl args fs = (None, m)"
    using scan_ok[of fl args fs] by (cases "scan fl args fs") auto
  obtain ds td where c: "collect (flag_action fl) (rangeOrder picks m) ([], []) = (ds, td)"
    by fastforce
  have p: "plan picks fl args fs = (ds, td)"
    using m c by (simp add: plan_def)
  have pg: "printGroups ds = Inr (concat (map groupLines (duplicateEntries picks fl args fs)))"
    using p printGroups_ok[of "duplicateEntries picks fl args fs"] by (auto simp: plan_eq)
  obtain fs' out where l: "deleteLoop (flag_dry_run fl) td fs = (fs', out)"
    by fastforce
  have "runDedupe picks fl args fs =
     (case (if flag_action fl = ''delete'' \<and> td \<noteq> []
            then (fs', (if flag_dry_run fl then DryRunBanner else DeletingBanner) # out)
            else (fs, [])) of
        (fs1, deleteLines) \<Rightarrow>
          \<lparr>ret = None, world = fs1,
           stdout = concat (map groupLines (duplicateEntries picks fl args fs))
                    @ deleteLines @ [FoundLine (length ds)]\<rparr>)"
    by (simp add: runDedupe_def Let_def m c assms pg l)
  then show ?thesis
    by (simp add: p l Let_def)
qed

lemma ret_None: "ret (runDedupe picks fl args fs) = None"
  by (cases "flag_output fl = FormatJSON") (simp_all add: runDedupe_json runDedupe_plain Let_def)

lemma removalOutcomes_none:
  "(\<And>x. x \<in> set xs \<Longrightarrow> (\<forall>p e. x \<noteq> FailedLine p e) \<and> (\<forall>p. x \<noteq> DeletedLine p))
   \<Longrightarrow> removalOutcomes xs = []"
  by (induction xs rule: removalOutcomes.induct) auto

lemma removalOutcomes_groupLines: "removalOutcomes (concat (map groupLines m)) = []"
  by (rule removalOutcomes_none) (auto simp: groupLines_def)

lemma removalOutcomes_would: "removalOutcomes (map WouldDeleteLine td) = []"
  by (rule removalOutcomes_none) auto

subsection \<open>What the walk visits\<close>

lemma visitOk_Join:
  "visitOk (Join p name) name v \<Longrightarrow>
     (case v of (q, info, err) \<Rightarrow>
        take (Suc (length p)) q = p @ [name] \<and>
        (case info of None \<Rightarrow> err \<noteq> None | Some i \<Rightarrow> Name i = last q))"
  by (auto simp: visitOk_def Join_def split: option.splits prod.splits)

lemma walk_visits:
  "v \<in> set (walkTrace fn p nm node s) \<Longrightarrow> visitOk p nm v"
proof (induction node arbitrary: fn p nm s v rule: fsnode_induct)
  case (File d r)
  then show ?case by (simp add: visitOk_def)
next
  case Unstatable
  then show ?case by (simp add: visitOk_def)
next
  case (Dir l es)
  have names: "\<exists>name \<in> fst ` set es'. visitOk (Join p name) name w"
    if "set es' \<subseteq> set es" and "w \<in> set (namesTrace fn p es' s')" for es' s' w
    using that
  proof (induction es' arbitrary: s')
    case Nil
    then show ?case by simp
  next
    case (Cons e es')
    obtain name node where e: "e = (name, node)" by (cases e)
    have mem: "(name, node) \<in> set es" using Cons.prems e by auto
    from Cons.prems(2) consider
      "w \<in> set (walkTrace fn (Join p name) name node s')"
      | s1 where "w \<in> set (namesTrace fn p es' s1)"
      unfolding e by (subst (asm) namesTrace_Cons) (auto simp: Let_def split: if_splits)
    then show ?case
    proof cases
      case 1
      then show ?thesis using Dir.IH[OF mem 1] e by auto
    next
      case 2
      then show ?thesis using Cons.IH[of s1] Cons.prems(1) by auto
    qed
  qed
  from Dir.prems consider "v = (p, Some \<lparr>Name = nm, IsDir = True\<rparr>, if l then None else Some EACCES)"
    | s1 where "v \<in> set (namesTrace fn p es s1)"
    by (subst (asm) walkTrace_Dir) (auto simp: Let_def split: if_splits)
  then show ?case
  proof cases
    case 1
    then show ?thesis by (simp add: visitOk_def)
  next
    case 2
    from names[OF subset_refl 2] obtain name where "visitOk (Join p name) name v" by blast
    from visitOk_Join[OF this] show ?thesis
      by (cases v) (auto simp: visitOk_def split: option.splits dest: arg_cong[where f = "take (length p)"])
  qed
qed


lemma names_visits:
  "w \<in> set (namesTrace fn p es s) \<Longrightarrow> \<exists>name \<in> fst ` set es. visitOk (Join p name) name w"
proof (induction es arbitrary: s)
  case Nil
  then show ?case by simp
next
  case (Cons e es)
  obtain name node where e: "e = (name, node)" by (cases e)
  from Cons.prems consider
    "w \<in> set (walkTrace fn (Join p name) name node s)"
    | s1 where "w \<in> set (namesTrace fn p es s1)"
    unfolding e by (subst (asm) namesTrace_Cons) (auto simp: Let_def split: if_splits)
  then show ?case
  proof cases
    case 1
    then show ?thesis using walk_visits[OF 1] e by auto
  next
    case 2
    then show ?thesis using Cons.IH[of s1] by auto
  qed
qed

lemma visitOk_prefix:
  "visitOk (Join p name) name v \<Longrightarrow> take (Suc (length p)) (fst v) = p @ [name]"
  by (cases v) (simp add: visitOk_def Join_def)

lemma names_visits_prefix:
  assumes "w \<in> set (namesTrace fn p es s)"
  shows "\<exists>name \<in> fst ` set es. take (Suc (length p)) (fst w) = p @ [name]"
proof -
  from names_visits[OF assms] obtain name
    where n: "name \<in> fst ` set es" "visitOk (Join p name) name w"
    by blast
  from visitOk_prefix[OF n(2)] n(1) show ?thesis
    by blast
qed

lemma walk_distinct:
  "wellFormed node \<Longrightarrow> distinct (map fst (walkTrace fn p nm node s))"
proof (induction node arbitrary: fn p nm s rule: fsnode_induct)
  case (File d r)
  show ?case by simp
next
  case Unstatable
  show ?case by simp
next
  case (Dir l es)
  have names: "distinct (map fst (namesTrace fn p es' s'))"
    if "set es' \<subseteq> set es" and "distinct (map fst es')" for es' s'
    using that
  proof (induction es' arbitrary: s')
    case Nil
    show ?case by simp
  next
    case (Cons e es')
    obtain name node where e: "e = (name, node)" by (cases e)
    have mem: "(name, node) \<in> set es" using Cons.prems e by auto
    then have wf: "wellFormed node" using Dir.prems by auto
    have d1: "distinct (map fst (walkTrace fn (Join p name) name node s'))"
      by (rule Dir.IH[OF mem wf])
    have d2: "distinct (map fst (namesTrace fn p es' s1))" for s1
      using Cons.IH[of s1] Cons.prems by auto
    have fresh: "n \<noteq> name" if "n \<in> fst ` set es'" for n
      using that Cons.prems(2) e by auto
    have disj: "fst w1 \<noteq> fst w2"
      if w1: "w1 \<in> set (walkTrace fn (Join p name) name node s')"
        and w2: "w2 \<in> set (namesTrace fn p es' s1)" for w1 w2 s1
    proof -
      have t1: "take (Suc (length p)) (fst w1) = p @ [name]"
        by (rule visitOk_prefix[OF walk_visits[OF w1]])
      obtain n where n: "n \<in> fst ` set es'" and t2: "take (Suc (length p)) (fst w2) = p @ [n]"
        using names_visits_prefix[OF w2] by blast
      from fresh[OF n] show ?thesis using t1 t2 by auto
    qed
    define r where "r = walk fn (Join p name) name node s'"
    have "namesTrace fn p ((name, node) # es') s' =
        walkTrace fn (Join p name) name node s' @ namesTrace fn p es' (snd r)
      \<or> namesTrace fn p ((name, node) # es') s' = walkTrace fn (Join p name) name node s'"
      using namesTrace_Cons[of fn p name node es' s'] by (auto simp: Let_def r_def)
    then show ?case
      unfolding e
    proof
      assume eq: "namesTrace fn p ((name, node) # es') s' =
        walkTrace fn (Join p name) name node s' @ namesTrace fn p es' (snd r)"
      have "fst ` set (walkTrace fn (Join p name) name node s')
          \<inter> fst ` set (namesTrace fn p es' (snd r)) = {}"
        using disj[of _ _ "snd r"] by (auto simp: image_iff)
      then show "distinct (map fst (namesTrace fn p ((name, node) # es') s'))"
        using d1 d2[of "snd r"] by (simp add: eq)
    next
      assume "namesTrace fn p ((name, node) # es') s' = walkTrace fn (Join p name) name node s'"
      then show "distinct (map fst (namesTrace fn p ((name, node) # es') s'))"
        using d1 by simp
    qed
  qed
  have d: "distinct (map fst es)" using Dir.prems by simp
  have "p \<noteq> fst w" if w: "w \<in> set (namesTrace fn p es s1)" for w s1
  proof
    assume "p = fst w"
    moreover obtain n where "take (Suc (length p)) (fst w) = p @ [n]"
      using names_visits_prefix[OF w] by blast
    ultimately show False by simp
  qed
  then have notin: "p \<notin> fst ` set (namesTrace fn p es s1)" for s1
    by (auto simp: image_iff)
  show ?case
    by (subst walkTrace_Dir) (simp add: Let_def names[OF subset_refl d] notin)
qed


lemma lookup_wellFormed:
  "wellFormed node \<Longrightarrow> lookup node p = Some node' \<Longrightarrow> wellFormed node'"
  "\<forall>e \<in> set es. wellFormed (snd e) \<Longrightarrow> lookupIn es c cs = Some node' \<Longrightarrow> wellFormed node'"
  by (induction node p and es c cs rule: lookup_lookupIn.induct) (auto split: if_splits)

lemma visits_cases:
  obtains e where "visits fl args fs = [(searchPathOf args, None, Some e)]"
  | node where "lookup fs (searchPathOf args) = Some node"
      "visits fl args fs =
         walkTrace (dedupeWalkFn fs (flag_by fl) (flag_recursive fl) (searchPathOf args))
           (searchPathOf args) (Base (searchPathOf args)) node []"
proof (cases "lookup fs (searchPathOf args)")
  case None
  then show ?thesis using that(1) by (simp add: visits_eq Let_def)
next
  case (Some node)
  then show ?thesis using that by (cases node) (simp_all add: visits_eq Let_def)
qed

lemma visits_distinct: "wellFormed fs \<Longrightarrow> distinct (map fst (visits fl args fs))"
  by (rule visits_cases[of fl args fs]) (auto simp: walk_distinct dest: lookup_wellFormed(1))

lemma visits_info:
  assumes "(q, Some i, err) \<in> set (visits fl args fs)"
  shows "Name i = Base q"
proof (rule visits_cases[of fl args fs])
  fix e
  assume "visits fl args fs = [(searchPathOf args, None, Some e)]"
  then show ?thesis using assms by simp
next
  fix node
  let ?root = "searchPathOf args"
  assume "visits fl args fs =
         walkTrace (dedupeWalkFn fs (flag_by fl) (flag_recursive fl) ?root) ?root (Base ?root) node []"
  then have "visitOk ?root (Base ?root) (q, Some i, err)"
    using assms walk_visits by metis
  then have pre: "take (length ?root) q = ?root"
    and nm: "Name i = (if q = ?root then Base ?root else last q)"
    by (simp_all add: visitOk_def)
  show ?thesis
  proof (cases "q = ?root")
    case True
    then show ?thesis using nm by simp
  next
    case False
    then have "q \<noteq> []" using pre by auto
    then show ?thesis using nm False by (simp add: Base_def)
  qed
qed

lemma visits_info_None:
  assumes "(q, None, err) \<in> set (visits fl args fs)"
  shows "err \<noteq> None"
proof (rule visits_cases[of fl args fs])
  fix e
  assume "visits fl args fs = [(searchPathOf args, None, Some e)]"
  then show ?thesis using assms by simp
next
  fix node
  assume "visits fl args fs =
         walkTrace (dedupeWalkFn fs (flag_by fl) (flag_recursive fl) (searchPathOf args))
           (searchPathOf args) (Base (searchPathOf args)) node []"
  then show ?thesis
    using walk_visits[of "(q, None, err)" _ "searchPathOf args" "Base (searchPathOf args)" node "[]"] assms
    by (auto simp: visitOk_def)
qed

subsection \<open>What is discovered\<close>

lemma recorded_eq:
  "recorded fl args fs (q, info, err) =
     (if err \<noteq> None then []
      else case info of
        None \<Rightarrow> []
      | Some i \<Rightarrow>
          if IsDir i then []
          else if flag_by fl = ''hash'' then
            (case calculateFileHash fs q of Inl e \<Rightarrow> [] | Inr h \<Rightarrow> [(h, q)])
          else [(Name i, q)])"
  by (simp add: recorded_def dedupeWalkFn_def split: option.splits sum.splits)

lemma discovered_iff:
  "(k, p) \<in> set (discovered fl args fs) \<longleftrightarrow>
     (\<exists>i. (p, Some i, None) \<in> set (visits fl args fs) \<and> \<not> IsDir i \<and>
          (if flag_by fl = ''hash'' then calculateFileHash fs p = Inr k else k = Name i))"
  (is "?L \<longleftrightarrow> ?R")
proof
  assume ?L
  then obtain v where v: "v \<in> set (visits fl args fs)" "(k, p) \<in> set (recorded fl args fs v)"
    by (auto simp: discovered_def)
  obtain q info err where q: "v = (q, info, err)" by (cases v)
  from v(2) have "err = None" unfolding q recorded_eq by (simp split: if_splits)
  moreover from v(2) obtain i where "info = Some i" "\<not> IsDir i"
    unfolding q recorded_eq by (cases info) (auto split: if_splits)
  moreover from v(2) have "p = q"
    and "if flag_by fl = ''hash'' then calculateFileHash fs p = Inr k else k = Name i"
    unfolding q recorded_eq using calculation by (auto split: if_splits sum.splits)
  ultimately show ?R using v(1) q by auto
next
  assume ?R
  then obtain i where i: "(p, Some i, None) \<in> set (visits fl args fs)" "\<not> IsDir i"
    "if flag_by fl = ''hash'' then calculateFileHash fs p = Inr k else k = Name i"
    by blast
  then have "(k, p) \<in> set (recorded fl args fs (p, Some i, None))"
    by (auto simp: recorded_eq split: if_splits)
  then show ?L using i(1) unfolding discovered_def by force
qed

lemma discovered_key:
  assumes "(k, p) \<in> set (discovered fl args fs)"
  shows "if flag_by fl = ''hash'' then calculateFileHash fs p = Inr k else k = Base p"
  using assms visits_info[of p _ None fl args fs] by (auto simp: discovered_iff split: if_splits)

lemma discovered_key_unique:
  "(k, p) \<in> set (discovered fl args fs) \<Longrightarrow> (k', p) \<in> set (discovered fl args fs) \<Longrightarrow> k = k'"
  using discovered_key[of k p fl args fs] discovered_key[of k' p fl args fs]
  by (auto split: if_splits)

lemma recorded_paths:
  "map snd (recorded fl args fs v) = (if recorded fl args fs v = [] then [] else [fst v])"
  by (cases v) (auto simp: recorded_eq split: option.splits sum.splits)

lemma discovered_paths:
  "map snd (discovered fl args fs) =
     map fst (filter (\<lambda>v. recorded fl args fs v \<noteq> []) (visits fl args fs))"
proof -
  have "map snd (concat (map (recorded fl args fs) vs)) =
        map fst (filter (\<lambda>v. recorded fl args fs v \<noteq> []) vs)" for vs
    by (induction vs) (simp_all add: recorded_paths)
  then show ?thesis by (simp add: discovered_def)
qed

lemma discovered_distinct: "wellFormed fs \<Longrightarrow> distinct (map snd (discovered fl args fs))"
  by (simp add: discovered_paths distinct_map_filter visits_distinct)

lemma membersOf_set: "p \<in> set (membersOf fl args fs k) \<longleftrightarrow> (k, p) \<in> set (discovered fl args fs)"
  by (auto simp: membersOf_def image_iff)

lemma membersOf_distinct: "wellFormed fs \<Longrightarrow> distinct (membersOf fl args fs k)"
  unfolding membersOf_def using discovered_distinct[of fs fl args]
  by (simp add: distinct_map_filter)

subsection \<open>The groups\<close>

lemma duplicateEntries_iff:
  "(k, files) \<in> set (duplicateEntries picks fl args fs) \<longleftrightarrow>
     (files = membersOf fl args fs k \<and> length files > 1)"
proof -
  have "length (membersOf fl args fs k) > 1 \<Longrightarrow> k \<in> fst ` set (discovered fl args fs)"
    using membersOf_nonempty[of k fl args fs] by auto
  then show ?thesis
    by (auto simp: duplicateEntries_def rangeOrder_set scan_entry)
qed

lemma duplicateEntries_distinct: "distinct (map fst (duplicateEntries picks fl args fs))"
  unfolding duplicateEntries_def
  by (intro distinct_map_filter rangeOrder_distinct_keys scan_keys_distinct)

lemma mkDuplicate_members:
  "length (snd e) > 1 \<Longrightarrow>
     mkDuplicate e =
       [(''key'', GoString (fst e)), (''keep'', GoPath (hd (snd e))),
        (''duplicates'', GoPaths (tl (snd e))), (''count'', GoInt (length (tl (snd e))))]"
  by (cases "snd e") (simp_all add: mkDuplicate_def drop_Suc)

subsection \<open>Hexadecimal keys\<close>

lemma hexDigit_lower: "hexDigit n \<in> set ''0123456789abcdef''"
proof -
  have "n mod 16 < length ''0123456789abcdef''" by simp
  then show ?thesis unfolding hexDigit_def by (rule nth_mem)
qed

lemma sprintf_x_length: "length (sprintf_x bytes) = 2 * length bytes"
  by (induction bytes) (simp_all add: sprintf_x_def hexByte_def)

lemma sprintf_x_lower: "set (sprintf_x bytes) \<subseteq> set ''0123456789abcdef''"
proof -
  define S where "S = set ''0123456789abcdef''"
  have d: "hexDigit n \<in> S" for n
    unfolding S_def by (rule hexDigit_lower)
  have "set (hexByte b) \<subseteq> S" for b
    by (simp add: hexByte_def d)
  then have "set (sprintf_x bytes) \<subseteq> S"
    by (auto simp: sprintf_x_def)
  then show ?thesis by (simp only: S_def)
qed

lemma sha256_length: "length (sha256 msg) = 32"
proof -
  have "length (stateBytes st) = 32" for st
    by (cases st rule: stateBytes.cases) (simp add: be32bytes_def)
  then show ?thesis by (simp add: sha256_def Let_def)
qed

lemma plan_groups:
  "d \<in> set (fst (plan picks fl args fs)) \<longleftrightarrow>
     (\<exists>key. length (membersOf fl args fs key) > 1 \<and>
        d = [(''key'', GoString key), (''keep'', GoPath (hd (membersOf fl args fs key))),
             (''duplicates'', GoPaths (tl (membersOf fl args fs key))),
             (''count'', GoInt (length (tl (membersOf fl args fs key))))])"
  (is "?L \<longleftrightarrow> ?R")
proof
  assume ?L
  then obtain e where e: "e \<in> set (duplicateEntries picks fl args fs)" "d = mkDuplicate e"
    by (auto simp: plan_eq)
  obtain k files where kf: "e = (k, files)" by (cases e)
  from e(1) have "files = membersOf fl args fs k" "length files > 1"
    unfolding kf by (auto simp: duplicateEntries_iff)
  then show ?R
    using e(2) kf mkDuplicate_members[of e] by auto
next
  assume ?R
  then obtain key where key: "length (membersOf fl args fs key) > 1"
    "d = [(''key'', GoString key), (''keep'', GoPath (hd (membersOf fl args fs key))),
          (''duplicates'', GoPaths (tl (membersOf fl args fs key))),
          (''count'', GoInt (length (tl (membersOf fl args fs key))))]"
    by blast
  have "(key, membersOf fl args fs key) \<in> set (duplicateEntries picks fl args fs)"
    using key(1) by (simp add: duplicateEntries_iff)
  moreover have "d = mkDuplicate (key, membersOf fl args fs key)"
    using key mkDuplicate_members[of "(key, membersOf fl args fs key)"] by simp
  ultimately show ?L by (auto simp: plan_eq)
qed

lemma plan_keys_distinct:
  "distinct (map (\<lambda>d. map_of d ''key'') (fst (plan picks fl args fs)))"
proof -
  let ?f = "\<lambda>k. Some (GoString k)"
  let ?es = "duplicateEntries picks fl args fs"
  have "map (\<lambda>d. map_of d ''key'') (map mkDuplicate ?es) = map ?f (map fst ?es)"
    by (simp add: mkDuplicate_def)
  moreover have "inj_on ?f (set (map fst ?es))"
    by (simp add: inj_on_def)
  ultimately show ?thesis
    using duplicateEntries_distinct[of picks fl args fs]
    by (simp only: plan_eq fst_conv distinct_map)
qed

lemma plan_toDelete:
  "set (snd (plan picks fl args fs)) =
     (if flag_action fl = ''delete''
      then {p. \<exists>key. length (membersOf fl args fs key) > 1 \<and> p \<in> set (tl (membersOf fl args fs key))}
      else {})"
proof -
  have "(\<exists>e \<in> set (duplicateEntries picks fl args fs). p \<in> set (drop 1 (snd e))) \<longleftrightarrow>
        (\<exists>key. length (membersOf fl args fs key) > 1 \<and> p \<in> set (tl (membersOf fl args fs key)))"
    (is "?A \<longleftrightarrow> ?B") for p
  proof
    assume ?A
    then obtain k files where "(k, files) \<in> set (duplicateEntries picks fl args fs)"
      "p \<in> set (drop 1 files)"
      by auto
    then show ?B
      by (auto simp: duplicateEntries_iff drop_Suc)
  next
    assume ?B
    then obtain key where "length (membersOf fl args fs key) > 1"
      "p \<in> set (tl (membersOf fl args fs key))"
      by blast
    then have "(key, membersOf fl args fs key) \<in> set (duplicateEntries picks fl args fs)"
      "p \<in> set (drop 1 (snd (key, membersOf fl args fs key)))"
      by (simp_all add: duplicateEntries_iff drop_Suc)
    then show ?A by blast
  qed
  then show ?thesis
    by (auto simp: plan_eq)
qed

subsection \<open>Reading a group, and the photo example\<close>

lemma groupMembers_entry:
  "groupMembers [(''key'', GoString key), (''keep'', GoPath keep),
                 (''duplicates'', GoPaths dups), (''count'', GoInt n)] = keep # dups"
  by (simp add: groupMembers_def)

lemma hd_tl_members: "length xs > 1 \<Longrightarrow> hd xs # tl xs = xs"
  by (cases xs) simp_all

lemma photos_plan:
  "plan [] (byName ''delete'' False ''plain'') [] photos = ([imgGroup], [[''dir2'', ''img.jpg'']])"
  by code_simp

lemma photos_discovered:
  "discovered (byName ''delete'' False ''plain'') [] photos =
     [(''img.jpg'', [''dir1'', ''img.jpg'']), (''img.jpg'', [''dir2'', ''img.jpg'']),
      (''notes.txt'', [''dir2'', ''notes.txt''])]"
  by code_simp

lemma photos_wellFormed: "wellFormed photos"
  by code_simp

subsection \<open>Strategies other than \<^verbatim>\<open>hash\<close>\<close>

lemma dedupeWalkFn_not_hash:
  "b \<noteq> ''hash'' \<Longrightarrow> dedupeWalkFn fs b rec sp = dedupeWalkFn fs ''name'' rec sp"
  by (intro ext) (auto simp: dedupeWalkFn_def split: option.splits)

subsection \<open>Entries that fail\<close>

lemma walk_failing_entry:
  assumes "bad = Unstatable \<or> (\<exists>sub. bad = Dir False sub)
           \<or> ((\<exists>d r. bad = File d r) \<and> b = ''hash'' \<and> (\<exists>e. calculateFileHash fs (Join p n) = Inl e))"
  shows "walk (dedupeWalkFn fs b rec sp) (Join p n) n bad m = (None, m)"
  using assms by auto

lemma walkNames_failing_entry:
  assumes "bad = Unstatable \<or> (\<exists>sub. bad = Dir False sub)
           \<or> ((\<exists>d r. bad = File d r) \<and> b = ''hash'' \<and> (\<exists>e. calculateFileHash fs (Join p n) = Inl e))"
  shows "walkNames (dedupeWalkFn fs b rec sp) p (es1 @ (n, bad) # es2) m
       = walkNames (dedupeWalkFn fs b rec sp) p (es1 @ es2) m"
proof -
  let ?D = "dedupeWalkFn fs b rec sp"
  have step: "walkNames ?D p ((n, bad) # es2) m' = walkNames ?D p es2 m'" for m'
    by (subst walkNames_Cons) (simp del: walk.simps add: walk_failing_entry[OF assms] Let_def)
  show ?thesis
    by (simp del: walkNames.simps add: walkNames_append[of ?D p es1] step Let_def)
qed

lemma deleteLoop_outcomes:
  "deleteLoop False td fs = (fs', out) \<Longrightarrow> map fst (removalOutcomes out) = td"
  by (induction td arbitrary: fs fs' out) (auto split: sum.splits prod.splits)

lemma deleteLoop_attempts:
  "map fst (removalOutcomes (snd (deleteLoop False td fs))) = td"
  using deleteLoop_outcomes[of td fs] by (cases "deleteLoop False td fs") simp

text \<open>In the plain format every planned removal is attempted, in order, whatever fails.\<close>

lemma plain_apply_attempts_all:
  assumes "flag_output fl \<noteq> FormatJSON" and "flag_action fl = ''delete''" and "\<not> flag_dry_run fl"
  shows "map fst (removalOutcomes (stdout (runDedupe picks fl args fs))) = snd (plan picks fl args fs)"
  using assms
  by (simp add: runDedupe_plain Let_def removalOutcomes_append removalOutcomes_groupLines
                deleteLoop_attempts)

text \<open>In the JSON format nothing is ever removed.\<close>

lemma json_never_removes:
  assumes "flag_output fl = FormatJSON"
  shows "world (runDedupe picks fl args fs) = fs
       \<and> removalOutcomes (stdout (runDedupe picks fl args fs)) = []"
  by (simp add: runDedupe_json[OF assms])

subsection \<open>The download example\<close>

text \<open>The digest of \<^verbatim>\<open>abc\<close> is the one FIPS 180-4 lists for it.\<close>

lemma sha256_abc: "sprintf_x (sha256 abc) = abcKey"
  by code_simp

lemma calculateFileHash_downloads:
  "calculateFileHash downloads [''a.txt''] = Inr abcKey"
  "calculateFileHash downloads [''b.txt''] = Inr abcKey"
  "calculateFileHash downloads [''c.txt''] = Inl EIO"
  by (simp_all add: calculateFileHash_def os_Open_def downloads_def sha256_abc)

lemma downloads_visits:
  "visits (byHash a d f) [] downloads =
     [([], Some \<lparr>Name = ''.'', IsDir = True\<rparr>, None),
      ([''a.txt''], Some \<lparr>Name = ''a.txt'', IsDir = False\<rparr>, None),
      ([''b.txt''], Some \<lparr>Name = ''b.txt'', IsDir = False\<rparr>, None),
      ([''c.txt''], Some \<lparr>Name = ''c.txt'', IsDir = False\<rparr>, None)]"
  by (simp add: visits_eq searchPathOf_def downloads_def walkTrace_Dir namesTrace_Cons
        Let_def Join_def Base_def byHash_def)

lemma downloads_discovered:
  "discovered (byHash a d f) [] downloads = [(abcKey, [''a.txt'']), (abcKey, [''b.txt''])]"
  by (simp add: discovered_def downloads_visits recorded_eq calculateFileHash_downloads)
     (simp add: byHash_def)

lemma calculateFileHash_Inr:
  "calculateFileHash fs p = Inr key \<longleftrightarrow>
     (\<exists>file bytes. os_Open fs p = Inr file \<and> io_Copy file = Inr bytes \<and> key = sprintf_x (sha256 bytes))"
  by (auto simp: calculateFileHash_def split: sum.splits)

section \<open>Claims\<close>

text \<open>
  C5. With \<^verbatim>\<open>--dry-run\<close> set, a run leaves the file system as it found it, whatever the
  tree, the action, the strategy and the output format, and reports no removal outcome.
\<close>

theorem preview_mutates_nothing:
  assumes "flag_dry_run fl"
  shows "world (runDedupe picks fl args fs) = fs
       \<and> removalOutcomes (stdout (runDedupe picks fl args fs)) = []"
proof (cases "flag_output fl = FormatJSON")
  case True
  then show ?thesis by (simp add: runDedupe_json)
next
  case False
  then show ?thesis
    using assms
    by (simp add: runDedupe_plain Let_def deleteLoop_dry removalOutcomes_append
                  removalOutcomes_groupLines removalOutcomes_would)
qed

theorem preview_mutates_nothing_witness:
  "flag_dry_run (byName ''delete'' True ''plain'')
   \<and> world (runDedupe [] (byName ''delete'' True ''plain'') [] photos) = photos
   \<and> removalOutcomes (stdout (runDedupe [] (byName ''delete'' True ''plain'') [] photos)) = []
   \<and> stdout (runDedupe [] (byName ''delete'' True ''plain'') [] photos) =
       [GroupLine (Some (GoString ''img.jpg'')), KeepLine (Some (GoPath [''dir1'', ''img.jpg''])),
        DuplicateLine [''dir2'', ''img.jpg''],
        DryRunBanner, WouldDeleteLine [''dir2'', ''img.jpg''], FoundLine 1]"
proof -
  have dry: "flag_dry_run (byName ''delete'' True ''plain'')"
    by (simp add: byName_def)
  have out: "stdout (runDedupe [] (byName ''delete'' True ''plain'') [] photos) =
       [GroupLine (Some (GoString ''img.jpg'')), KeepLine (Some (GoPath [''dir1'', ''img.jpg''])),
        DuplicateLine [''dir2'', ''img.jpg''],
        DryRunBanner, WouldDeleteLine [''dir2'', ''img.jpg''], FoundLine 1]"
    by code_simp
  show ?thesis
    using preview_mutates_nothing[OF dry, of "[]" "[]" photos] dry out by simp
qed

text \<open>
  C7. A key under which fewer than two paths were discovered gives no group, so a file whose
  key is unique is in no group; every group lists at least two members; no two groups share
  a key. The groups are the value of \<^verbatim>\<open>duplicates\<close> after the loop over the map,
  whatever order the loop takes.
\<close>

theorem singletons_excluded:
  "(\<forall>d \<in> set (fst (plan picks fl args fs)). 2 \<le> length (groupMembers d))
   \<and> distinct (map (\<lambda>d. map_of d ''key'') (fst (plan picks fl args fs)))
   \<and> (\<forall>key. length (membersOf fl args fs key) < 2 \<longrightarrow>
         (\<forall>d \<in> set (fst (plan picks fl args fs)). map_of d ''key'' \<noteq> Some (GoString key)))
   \<and> (\<forall>key p. (key, p) \<in> set (discovered fl args fs) \<and> length (membersOf fl args fs key) < 2 \<longrightarrow>
         (\<forall>d \<in> set (fst (plan picks fl args fs)). p \<notin> set (groupMembers d)))"
proof (intro conjI ballI allI impI)
  fix d
  assume "d \<in> set (fst (plan picks fl args fs))"
  then obtain key where "length (membersOf fl args fs key) > 1"
    "groupMembers d = hd (membersOf fl args fs key) # tl (membersOf fl args fs key)"
    by (auto simp: plan_groups groupMembers_entry)
  then show "2 \<le> length (groupMembers d)"
    by (simp add: hd_tl_members)
next
  show "distinct (map (\<lambda>d. map_of d ''key'') (fst (plan picks fl args fs)))"
    by (rule plan_keys_distinct)
next
  fix key d
  assume "length (membersOf fl args fs key) < 2" and "d \<in> set (fst (plan picks fl args fs))"
  then show "map_of d ''key'' \<noteq> Some (GoString key)"
    by (auto simp: plan_groups)
next
  fix key p d
  assume kp: "(key, p) \<in> set (discovered fl args fs) \<and> length (membersOf fl args fs key) < 2"
    and d: "d \<in> set (fst (plan picks fl args fs))"
  from d obtain k where k: "length (membersOf fl args fs k) > 1"
    "groupMembers d = hd (membersOf fl args fs k) # tl (membersOf fl args fs k)"
    by (auto simp: plan_groups groupMembers_entry)
  show "p \<notin> set (groupMembers d)"
  proof
    assume "p \<in> set (groupMembers d)"
    then have "p \<in> set (membersOf fl args fs k)"
      using k by (simp add: hd_tl_members)
    then have "(k, p) \<in> set (discovered fl args fs)"
      by (simp add: membersOf_set)
    then have "k = key"
      using kp discovered_key_unique by blast
    then show False using k(1) kp by simp
  qed
qed

theorem singletons_excluded_witness:
  "fst (plan [] (byName ''delete'' False ''plain'') [] photos) = [imgGroup]
   \<and> groupMembers imgGroup = [[''dir1'', ''img.jpg''], [''dir2'', ''img.jpg'']]
   \<and> (''notes.txt'', [''dir2'', ''notes.txt'']) \<in> set (discovered (byName ''delete'' False ''plain'') [] photos)
   \<and> length (membersOf (byName ''delete'' False ''plain'') [] photos ''notes.txt'') < 2
   \<and> map_of imgGroup ''key'' \<noteq> Some (GoString ''notes.txt'')
   \<and> [''dir2'', ''notes.txt''] \<notin> set (groupMembers imgGroup)"
  using singletons_excluded[of "[]" "byName ''delete'' False ''plain''" "[]" photos]
  by (simp add: photos_plan photos_discovered membersOf_def imgGroup_def groupMembers_def)

text \<open>
  C4. In every group the entry \<^verbatim>\<open>keep\<close> followed by the entries \<^verbatim>\<open>duplicates\<close> is
  the list of the paths discovered under the group's key, in walk order: the file kept is
  the first one discovered. With \<^verbatim>\<open>--action delete\<close> every entry of
  \<^verbatim>\<open>duplicates\<close> is in \<^verbatim>\<open>toDelete\<close>, and in a tree that holds each name once per
  directory the file kept is not.
\<close>

theorem keep_is_first_discovered:
  assumes "d \<in> set (fst (plan picks fl args fs))"
  shows "\<exists>key keep dups.
           d = [(''key'', GoString key), (''keep'', GoPath keep),
                (''duplicates'', GoPaths dups), (''count'', GoInt (length dups))]
         \<and> keep # dups = membersOf fl args fs key
         \<and> (flag_action fl = ''delete'' \<longrightarrow> set dups \<subseteq> set (snd (plan picks fl args fs)))
         \<and> (wellFormed fs \<longrightarrow> keep \<notin> set (snd (plan picks fl args fs)))"
proof -
  from assms obtain key where key: "length (membersOf fl args fs key) > 1"
    and d: "d = [(''key'', GoString key), (''keep'', GoPath (hd (membersOf fl args fs key))),
             (''duplicates'', GoPaths (tl (membersOf fl args fs key))),
             (''count'', GoInt (length (tl (membersOf fl args fs key))))]"
    by (auto simp: plan_groups)
  let ?M = "membersOf fl args fs key"
  have split: "hd ?M # tl ?M = ?M"
    using key by (rule hd_tl_members)
  have marked: "set (tl ?M) \<subseteq> set (snd (plan picks fl args fs))" if "flag_action fl = ''delete''"
    using that key by (auto simp: plan_toDelete)
  have retained: "hd ?M \<notin> set (snd (plan picks fl args fs))" if wf: "wellFormed fs"
  proof
    assume "hd ?M \<in> set (snd (plan picks fl args fs))"
    then obtain k where k: "hd ?M \<in> set (tl (membersOf fl args fs k))"
      by (auto simp: plan_toDelete split: if_splits)
    then have "hd ?M \<in> set (membersOf fl args fs k)"
      by (cases "membersOf fl args fs k") auto
    moreover have "hd ?M \<in> set ?M"
      using split by (metis list.set_intros(1))
    ultimately have "k = key"
      using discovered_key_unique[of k "hd ?M" fl args fs key] by (simp add: membersOf_set)
    moreover have "distinct (hd ?M # tl ?M)"
      using membersOf_distinct[OF wf, of fl args key] split by simp
    ultimately show False using k by simp
  qed
  show ?thesis
    using d split marked retained by blast
qed


theorem keep_is_first_discovered_witness:
  "imgGroup \<in> set (fst (plan [] (byName ''delete'' False ''plain'') [] photos))
   \<and> wellFormed photos
   \<and> flag_action (byName ''delete'' False ''plain'') = ''delete''
   \<and> membersOf (byName ''delete'' False ''plain'') [] photos ''img.jpg''
       = [[''dir1'', ''img.jpg''], [''dir2'', ''img.jpg'']]
   \<and> [''dir2'', ''img.jpg''] \<in> set (snd (plan [] (byName ''delete'' False ''plain'') [] photos))
   \<and> [''dir1'', ''img.jpg''] \<notin> set (snd (plan [] (byName ''delete'' False ''plain'') [] photos))"
proof -
  let ?fl = "byName ''delete'' False ''plain''"
  have h: "imgGroup \<in> set (fst (plan [] ?fl [] photos))"
    by (simp add: photos_plan)
  have act: "flag_action ?fl = ''delete''"
    by (simp add: byName_def)
  have m: "membersOf ?fl [] photos ''img.jpg'' = [[''dir1'', ''img.jpg''], [''dir2'', ''img.jpg'']]"
    by (simp add: membersOf_def photos_discovered)
  from keep_is_first_discovered[OF h] obtain key keep dups
    where g: "imgGroup = [(''key'', GoString key), (''keep'', GoPath keep),
                (''duplicates'', GoPaths dups), (''count'', GoInt (length dups))]"
      and marked: "flag_action ?fl = ''delete'' \<longrightarrow> set dups \<subseteq> set (snd (plan [] ?fl [] photos))"
      and retained: "wellFormed photos \<longrightarrow> keep \<notin> set (snd (plan [] ?fl [] photos))"
    by blast
  from g have "keep = [''dir1'', ''img.jpg'']" "dups = [[''dir2'', ''img.jpg'']]"
    by (auto simp: imgGroup_def)
  then show ?thesis
    using h act m marked retained photos_wellFormed by simp
qed

text \<open>
  C3 (amended). With \<^verbatim>\<open>--output json\<close> the run prints one result whose data is a map
  with exactly the fields \<^verbatim>\<open>path\<close>, \<^verbatim>\<open>method\<close>, \<^verbatim>\<open>duplicates\<close>,
  \<^verbatim>\<open>count\<close>, \<^verbatim>\<open>to_delete\<close> and \<^verbatim>\<open>dry_run\<close>; every entry of
  \<^verbatim>\<open>duplicates\<close> has exactly the fields \<^verbatim>\<open>key\<close>, \<^verbatim>\<open>keep\<close>,
  \<^verbatim>\<open>duplicates\<close> and \<^verbatim>\<open>count\<close>.
\<close>

theorem json_report_fields:
  assumes "flag_output fl = FormatJSON"
  shows "\<exists>m ds.
           stdout (runDedupe picks fl args fs) =
             [JSONOut \<lparr>Success = True, Data = Some (GoMap m), Error = []\<rparr>]
         \<and> map fst m = [''path'', ''method'', ''duplicates'', ''count'', ''to_delete'', ''dry_run'']
         \<and> map_of m ''duplicates'' = Some (GoSlice (map GoMap ds))
         \<and> (\<forall>d \<in> set ds. map fst d = [''key'', ''keep'', ''duplicates'', ''count''])"
proof -
  let ?m = "[(''path'', GoPath (searchPathOf args)),
             (''method'', GoString (flag_by fl)),
             (''duplicates'', GoSlice (map GoMap (fst (plan picks fl args fs)))),
             (''count'', GoInt (length (fst (plan picks fl args fs)))),
             (''to_delete'', GoInt (length (snd (plan picks fl args fs)))),
             (''dry_run'', GoBool (flag_dry_run fl))]"
  have out: "stdout (runDedupe picks fl args fs) =
      [JSONOut \<lparr>Success = True, Data = Some (GoMap ?m), Error = []\<rparr>]"
    by (simp add: runDedupe_json[OF assms])
  have top: "map fst ?m = [''path'', ''method'', ''duplicates'', ''count'', ''to_delete'', ''dry_run'']"
    by simp
  have dups: "map_of ?m ''duplicates'' = Some (GoSlice (map GoMap (fst (plan picks fl args fs))))"
    by simp
  have entry: "\<forall>d \<in> set (fst (plan picks fl args fs)).
      map fst d = [''key'', ''keep'', ''duplicates'', ''count'']"
    by (auto simp: plan_eq mkDuplicate_def)
  show ?thesis
    by (rule exI[of _ ?m], rule exI[of _ "fst (plan picks fl args fs)"])
       (intro conjI out top dups entry)
qed

theorem json_report_fields_witness:
  "flag_output (byName ''list'' False ''json'') = FormatJSON
   \<and> stdout (runDedupe [] (byName ''list'' False ''json'') [] photos) =
       [JSONOut \<lparr>Success = True,
          Data = Some (GoMap
            [(''path'', GoPath []), (''method'', GoString ''name''),
             (''duplicates'', GoSlice [GoMap imgGroup]),
             (''count'', GoInt 1), (''to_delete'', GoInt 0), (''dry_run'', GoBool False)]),
          Error = []\<rparr>]"
proof -
  have f: "flag_output (byName ''list'' False ''json'') = FormatJSON"
    by (simp add: byName_def FormatJSON_def)
  have out: "stdout (runDedupe [] (byName ''list'' False ''json'') [] photos) =
       [JSONOut \<lparr>Success = True,
          Data = Some (GoMap
            [(''path'', GoPath []), (''method'', GoString ''name''),
             (''duplicates'', GoSlice [GoMap imgGroup]),
             (''count'', GoInt 1), (''to_delete'', GoInt 0), (''dry_run'', GoBool False)]),
          Error = []\<rparr>]"
    by code_simp
  show ?thesis
    using json_report_fields[OF f, of "[]" "[]" photos] f out by simp
qed

text \<open>
  C3 as stated names the first field \<^verbatim>\<open>root_path\<close>; the map literal in
  \<^verbatim>\<open>runDedupe\<close> names it \<^verbatim>\<open>path\<close>, as the sibling commands do.
\<close>

theorem json_report_fields_counterexample:
  "map_option (map fst) (jsonReport (stdout (runDedupe [] (byName ''list'' False ''json'') [] photos)))
     = Some [''path'', ''method'', ''duplicates'', ''count'', ''to_delete'', ''dry_run'']
   \<and> map_option (\<lambda>m. set (map fst m))
        (jsonReport (stdout (runDedupe [] (byName ''list'' False ''json'') [] photos)))
     \<noteq> Some {''root_path'', ''method'', ''duplicates'', ''count'', ''to_delete'', ''dry_run''}"
  by code_simp

text \<open>
  C10. A strategy other than the string \<^verbatim>\<open>hash\<close> is never rejected: the walk, the pairs
  discovered and the plan are those of the strategy \<^verbatim>\<open>name\<close>, every key is the base
  name of its path, and the run returns no error.
\<close>

theorem other_strategy_is_name:
  assumes "flag_by fl \<noteq> ''hash''"
  shows "scan fl args fs = scan (fl\<lparr>flag_by := ''name''\<rparr>) args fs
       \<and> discovered fl args fs = discovered (fl\<lparr>flag_by := ''name''\<rparr>) args fs
       \<and> plan picks fl args fs = plan picks (fl\<lparr>flag_by := ''name''\<rparr>) args fs
       \<and> (\<forall>kp \<in> set (discovered fl args fs). fst kp = Base (snd kp))
       \<and> ret (runDedupe picks fl args fs) = None"
proof -
  have s: "scan fl args fs = scan (fl\<lparr>flag_by := ''name''\<rparr>) args fs"
    by (simp add: scan_def dedupeWalkFn_not_hash[OF assms])
  have v: "visits fl args fs = visits (fl\<lparr>flag_by := ''name''\<rparr>) args fs"
    by (simp add: visits_def dedupeWalkFn_not_hash[OF assms])
  have r: "recorded fl args fs = recorded (fl\<lparr>flag_by := ''name''\<rparr>) args fs"
    by (intro ext) (simp add: recorded_def dedupeWalkFn_not_hash[OF assms])
  have k: "fst kp = Base (snd kp)" if "kp \<in> set (discovered fl args fs)" for kp
    using discovered_key[of "fst kp" "snd kp" fl args fs] that assms by simp
  have d: "discovered fl args fs = discovered (fl\<lparr>flag_by := ''name''\<rparr>) args fs"
    unfolding discovered_def by (simp only: v r)
  have p: "plan picks fl args fs = plan picks (fl\<lparr>flag_by := ''name''\<rparr>) args fs"
    unfolding plan_def by (simp add: s)
  from s d p k ret_None[of picks fl args fs] show ?thesis
    by blast
qed

theorem other_strategy_is_name_witness:
  "flag_by ((byName ''list'' False ''plain'')\<lparr>flag_by := ''size''\<rparr>) \<noteq> ''hash''
   \<and> discovered ((byName ''list'' False ''plain'')\<lparr>flag_by := ''size''\<rparr>) [] photos =
       [(''img.jpg'', [''dir1'', ''img.jpg'']), (''img.jpg'', [''dir2'', ''img.jpg'']),
        (''notes.txt'', [''dir2'', ''notes.txt''])]
   \<and> ret (runDedupe [] ((byName ''list'' False ''plain'')\<lparr>flag_by := ''size''\<rparr>) [] photos) = None"
proof -
  let ?fl = "(byName ''list'' False ''plain'')\<lparr>flag_by := ''size''\<rparr>"
  have h: "flag_by ?fl \<noteq> ''hash''"
    by (simp add: byName_def)
  have d: "discovered (?fl\<lparr>flag_by := ''name''\<rparr>) [] photos =
       [(''img.jpg'', [''dir1'', ''img.jpg'']), (''img.jpg'', [''dir2'', ''img.jpg'']),
        (''notes.txt'', [''dir2'', ''notes.txt''])]"
    by code_simp
  note t = other_strategy_is_name[OF h, of "[]" photos "[]"]
  from t have "discovered ?fl [] photos = discovered (?fl\<lparr>flag_by := ''name''\<rparr>) [] photos"
    by blast
  then have e: "discovered ?fl [] photos =
       [(''img.jpg'', [''dir1'', ''img.jpg'']), (''img.jpg'', [''dir2'', ''img.jpg'']),
        (''notes.txt'', [''dir2'', ''notes.txt''])]"
    using d by (rule trans)
  from t have r: "ret (runDedupe [] ?fl [] photos) = None"
    by blast
  show ?thesis
    by (intro conjI h e r)
qed

text \<open>
  C9. The walk never returns an error and the run returns none. Every regular file the walk
  reaches whose key can be computed is recorded; an entry that cannot be stat'ed, a
  directory that cannot be listed and, under the hash strategy, a file that cannot be
  opened or read leave the walk of the directory that holds them as it is without them:
  the entries after them are still visited, and the map is the same.
\<close>

theorem failing_entries_are_skipped:
  "fst (scan fl args fs) = None
   \<and> ret (runDedupe picks fl args fs) = None
   \<and> (\<forall>q i. (q, Some i, None) \<in> set (visits fl args fs) \<and> \<not> IsDir i
         \<and> (flag_by fl = ''hash'' \<longrightarrow> (\<exists>h. calculateFileHash fs q = Inr h))
         \<longrightarrow> q \<in> snd ` set (discovered fl args fs))
   \<and> ((bad = Unstatable \<or> (\<exists>sub. bad = Dir False sub)
        \<or> ((\<exists>d r. bad = File d r) \<and> flag_by fl = ''hash''
            \<and> (\<exists>e. calculateFileHash fs (Join p n) = Inl e)))
       \<longrightarrow> walkNames (dedupeWalkFn fs (flag_by fl) (flag_recursive fl) sp) p (es1 @ (n, bad) # es2) m
           = walkNames (dedupeWalkFn fs (flag_by fl) (flag_recursive fl) sp) p (es1 @ es2) m)"
proof -
  have kept: "q \<in> snd ` set (discovered fl args fs)"
    if "(q, Some i, None) \<in> set (visits fl args fs) \<and> \<not> IsDir i
        \<and> (flag_by fl = ''hash'' \<longrightarrow> (\<exists>h. calculateFileHash fs q = Inr h))" for q i
  proof (cases "flag_by fl = ''hash''")
    case True
    with that obtain h where "calculateFileHash fs q = Inr h" by blast
    with that True have "(h, q) \<in> set (discovered fl args fs)"
      by (auto simp: discovered_iff)
    then show ?thesis by force
  next
    case False
    with that have "(Name i, q) \<in> set (discovered fl args fs)"
      by (auto simp: discovered_iff)
    then show ?thesis by force
  qed
  have all_kept: "\<forall>q i. (q, Some i, None) \<in> set (visits fl args fs) \<and> \<not> IsDir i
         \<and> (flag_by fl = ''hash'' \<longrightarrow> (\<exists>h. calculateFileHash fs q = Inr h))
         \<longrightarrow> q \<in> snd ` set (discovered fl args fs)"
    using kept by blast
  have skipped: "(bad = Unstatable \<or> (\<exists>sub. bad = Dir False sub)
        \<or> ((\<exists>d r. bad = File d r) \<and> flag_by fl = ''hash''
            \<and> (\<exists>e. calculateFileHash fs (Join p n) = Inl e)))
       \<longrightarrow> walkNames (dedupeWalkFn fs (flag_by fl) (flag_recursive fl) sp) p (es1 @ (n, bad) # es2) m
           = walkNames (dedupeWalkFn fs (flag_by fl) (flag_recursive fl) sp) p (es1 @ es2) m"
    using walkNames_failing_entry[of bad "flag_by fl" fs p n "flag_recursive fl" sp es1 es2 m]
    by blast
  show ?thesis
    by (intro conjI scan_ok ret_None all_kept skipped)
qed

theorem failing_entries_are_skipped_witness:
  "walkNames (dedupeWalkFn photos ''name'' True []) []
       ([(''a'', File (Content [1]) True)] @ (''gone'', Unstatable) # [(''z'', File (Content [1]) True)]) []
     = walkNames (dedupeWalkFn photos ''name'' True []) []
       ([(''a'', File (Content [1]) True)] @ [(''z'', File (Content [1]) True)]) []
   \<and> walkNames (dedupeWalkFn photos ''name'' True []) []
       ([(''a'', File (Content [1]) True)] @ [(''z'', File (Content [1]) True)]) []
     = (None, [(''a'', [[''a'']]), (''z'', [[''z'']])])
   \<and> ret (runDedupe [] (byName ''list'' False ''plain'') [] photos) = None"
proof -
  have r: "walkNames (dedupeWalkFn photos ''name'' True []) []
       ([(''a'', File (Content [1]) True)] @ [(''z'', File (Content [1]) True)]) []
     = (None, [(''a'', [[''a'']]), (''z'', [[''z'']])])"
    by (simp add: Join_def)
  have f: "flag_by (byName ''list'' False ''plain'') = ''name''"
    "flag_recursive (byName ''list'' False ''plain'')"
    by (simp_all add: byName_def)
  note t = failing_entries_are_skipped[of "byName ''list'' False ''plain''" "[]" photos "[]"
      Unstatable "[]" "''gone''" "[]" "[(''a'', File (Content [1]) True)]"
      "[(''z'', File (Content [1]) True)]" "[]", unfolded f]
  from t r show ?thesis by simp
qed

text \<open>
  C1. With \<^verbatim>\<open>--action delete\<close>, no \<^verbatim>\<open>--dry-run\<close> and \<^verbatim>\<open>--output json\<close>, on two
  files of the same name: one removal is planned, none is attempted and the tree is left as
  it was. The same run in the plain format removes the file.
\<close>

theorem json_apply_removes_nothing:
  "snd (plan [] (byName ''delete'' False ''json'') [] photos) = [[''dir2'', ''img.jpg'']]
   \<and> world (runDedupe [] (byName ''delete'' False ''json'') [] photos) = photos
   \<and> removalOutcomes (stdout (runDedupe [] (byName ''delete'' False ''json'') [] photos)) = []
   \<and> removalOutcomes (stdout (runDedupe [] (byName ''delete'' False ''plain'') [] photos))
       = [([''dir2'', ''img.jpg''], True, None)]"
  by code_simp

text \<open>
  C2. On a root path that does not exist the run returns no error: the walk function is
  called once with the error of \<^verbatim>\<open>lstat\<close> and answers nil, so the walk returns nil and
  the command reports zero groups.
\<close>

theorem missing_root_is_no_error:
  "os_Lstat photos [''missing''] = Inl ENOENT
   \<and> runDedupe [] (byName ''list'' False ''plain'') [[''missing'']] photos
       = \<lparr>ret = None, world = photos, stdout = [FoundLine 0]\<rparr>"
  by code_simp

text \<open>
  C8. After a run with \<^verbatim>\<open>--action delete\<close> and \<^verbatim>\<open>--output json\<close> in which no removal
  failed, a second run finds the same group again. In the plain format the second run
  finds none.
\<close>

theorem json_apply_twice_finds_groups_again:
  "removalOutcomes (stdout (runDedupe [] (byName ''delete'' False ''json'') [] photos)) = []
   \<and> fst (plan [] (byName ''delete'' False ''json'') []
            (world (runDedupe [] (byName ''delete'' False ''json'') [] photos))) = [imgGroup]
   \<and> fst (plan [] (byName ''delete'' False ''plain'') []
            (world (runDedupe [] (byName ''delete'' False ''plain'') [] photos))) = []"
  by code_simp

text \<open>
  C6. Under the hash strategy the key recorded for a path is the lowercase hexadecimal
  rendering of the SHA-256 digest of all the bytes read from the file the path opens: 32
  bytes, 64 characters from \<^verbatim>\<open>0123456789abcdef\<close>. Under the name strategy the key is
  the base name of the path. Conversely every regular file the walk reaches is recorded
  under that key, under the hash strategy when it can be opened and read.
\<close>

theorem identity_keys:
  "(\<forall>key p. (key, p) \<in> set (discovered fl args fs) \<longrightarrow>
      (flag_by fl = ''hash'' \<longrightarrow>
         (\<exists>file bytes. os_Open fs p = Inr file \<and> io_Copy file = Inr bytes
            \<and> key = sprintf_x (sha256 bytes)
            \<and> 8 * length (sha256 bytes) = 256
            \<and> length key = 64
            \<and> set key \<subseteq> set ''0123456789abcdef''))
      \<and> (flag_by fl = ''name'' \<longrightarrow> key = Base p))
   \<and> (\<forall>p i. (p, Some i, None) \<in> set (visits fl args fs) \<and> \<not> IsDir i \<longrightarrow>
      (flag_by fl = ''hash'' \<longrightarrow>
         (\<forall>file bytes. os_Open fs p = Inr file \<and> io_Copy file = Inr bytes
            \<longrightarrow> (sprintf_x (sha256 bytes), p) \<in> set (discovered fl args fs)))
      \<and> (flag_by fl = ''name'' \<longrightarrow> (Base p, p) \<in> set (discovered fl args fs)))"
proof (intro conjI allI impI)
  fix key p
  assume d: "(key, p) \<in> set (discovered fl args fs)" and h: "flag_by fl = ''hash''"
  from discovered_key[OF d] h have "calculateFileHash fs p = Inr key" by simp
  then obtain fh bytes where "os_Open fs p = Inr fh" "io_Copy fh = Inr bytes"
    "key = sprintf_x (sha256 bytes)"
    unfolding calculateFileHash_Inr by blast
  moreover have "8 * length (sha256 bytes) = 256" "length (sprintf_x (sha256 bytes)) = 64"
    by (simp_all add: sha256_length sprintf_x_length)
  ultimately show "\<exists>file bytes. os_Open fs p = Inr file \<and> io_Copy file = Inr bytes
            \<and> key = sprintf_x (sha256 bytes)
            \<and> 8 * length (sha256 bytes) = 256
            \<and> length key = 64
            \<and> set key \<subseteq> set ''0123456789abcdef''"
    using sprintf_x_lower[of "sha256 bytes"] by blast
next
  fix key p
  assume d: "(key, p) \<in> set (discovered fl args fs)" and n: "flag_by fl = ''name''"
  from discovered_key[OF d] n show "key = Base p" by simp
next
  fix p i fh bytes
  assume v: "(p, Some i, None) \<in> set (visits fl args fs) \<and> \<not> IsDir i"
    and h: "flag_by fl = ''hash''"
    and r: "os_Open fs p = Inr fh \<and> io_Copy fh = Inr bytes"
  have "calculateFileHash fs p = Inr (sprintf_x (sha256 bytes))"
    using r unfolding calculateFileHash_Inr by blast
  then show "(sprintf_x (sha256 bytes), p) \<in> set (discovered fl args fs)"
    using v h unfolding discovered_iff by auto
next
  fix p i
  assume v: "(p, Some i, None) \<in> set (visits fl args fs) \<and> \<not> IsDir i"
    and n: "flag_by fl = ''name''"
  have "Name i = Base p" using v visits_info by blast
  then show "(Base p, p) \<in> set (discovered fl args fs)"
    using v n unfolding discovered_iff by auto
qed


theorem identity_keys_witness:
  "(abcKey, [''a.txt'']) \<in> set (discovered (byHash ''list'' False ''plain'') [] downloads)
   \<and> flag_by (byHash ''list'' False ''plain'') = ''hash''
   \<and> os_Open downloads [''a.txt''] = Inr (File (Content abc) True)
   \<and> io_Copy (File (Content abc) True) = Inr abc
   \<and> abcKey = sprintf_x (sha256 abc)
   \<and> length abcKey = 64
   \<and> set abcKey \<subseteq> set ''0123456789abcdef''
   \<and> (''img.jpg'', [''dir2'', ''img.jpg'']) \<in> set (discovered (byName ''list'' False ''plain'') [] photos)
   \<and> flag_by (byName ''list'' False ''plain'') = ''name''
   \<and> ''img.jpg'' = Base [''dir2'', ''img.jpg'']"
proof -
  let ?fl = "byHash ''list'' False ''plain''"
  have d: "(abcKey, [''a.txt'']) \<in> set (discovered ?fl [] downloads)"
    by (simp add: downloads_discovered)
  have h: "flag_by ?fl = ''hash''"
    by (simp add: byHash_def)
  have o: "os_Open downloads [''a.txt''] = Inr (File (Content abc) True)"
    by (simp add: os_Open_def downloads_def)
  from identity_keys[of ?fl "[]" downloads, THEN conjunct1, rule_format, OF d, THEN conjunct1,
      rule_format, OF h]
  obtain fh bytes where k: "os_Open downloads [''a.txt''] = Inr fh" "io_Copy fh = Inr bytes"
    "abcKey = sprintf_x (sha256 bytes)" "length abcKey = 64"
    "set abcKey \<subseteq> set ''0123456789abcdef''"
    by blast
  from k(1) o have "fh = File (Content abc) True" by simp
  with k(2) have "bytes = abc" by simp
  with k have hash: "abcKey = sprintf_x (sha256 abc)" "length abcKey = 64"
    "set abcKey \<subseteq> set ''0123456789abcdef''"
    by simp_all
  let ?nm = "byName ''list'' False ''plain''"
  have dn: "(''img.jpg'', [''dir2'', ''img.jpg'']) \<in> set (discovered ?nm [] photos)"
    by code_simp
  have n: "flag_by ?nm = ''name''"
    by (simp add: byName_def)
  from identity_keys[of ?nm "[]" photos, THEN conjunct1, rule_format, OF dn, THEN conjunct2,
      rule_format, OF n]
  have base: "''img.jpg'' = Base [''dir2'', ''img.jpg'']" .
  have c: "io_Copy (File (Content abc) True) = Inr abc" by simp
  show ?thesis
    by (intro conjI d h o c hash dn n base)
qed

end
